theory Spec2Isabelle
  imports Main "HOL-Library.Word"
begin

section \<open>Status codes, the row source and the caller's memory\<close>

text \<open>
  The model follows \<^verbatim>\<open>groups.c\<close>.  The SQLite library and the helpers of
  \<^verbatim>\<open>utils.c\<close> are collaborators of that file; they are described here by the
  outcomes the code distinguishes.
\<close>

datatype nss_status =
  NSS_STATUS_TRYAGAIN | NSS_STATUS_UNAVAIL | NSS_STATUS_NOTFOUND | NSS_STATUS_SUCCESS

datatype errno = ERANGE

datatype sqlite_rc = SQLITE_ROW | SQLITE_DONE | SQLITE_ERROR

type_synonym gid = "32 word"
type_synonym addr = nat

text \<open>
  A connection or statement handle is a number; 0 is the NULL handle.  The trace records
  the calls that acquire or release a handle, in the order of the calls: \<open>Open c\<close> for a
  connection \<open>c\<close> handed out by \<^verbatim>\<open>sqlite3_open\<close>, \<open>Prepare s c\<close> for a statement
  \<open>s\<close> prepared on connection \<open>c\<close>, \<open>Finalize s\<close> for \<^verbatim>\<open>sqlite3_finalize\<close>,
  \<open>Close c\<close> for a \<^verbatim>\<open>sqlite3_close\<close> that released the connection, and \<open>Busy c\<close>
  for a \<^verbatim>\<open>sqlite3_close\<close> that was refused and released nothing.
\<close>

datatype event = Open nat | Close nat | Busy nat | Prepare nat nat | Finalize nat

text \<open>
  A prepared statement: its handle, the row it is positioned on and the rows still to come.
  When the rows run out \<^verbatim>\<open>sqlite3_step\<close> answers \<open>SQLITE_DONE\<close>, or an error code
  if the store fails at that step.
\<close>

record 'r stmt =
  sid :: nat
  current :: "'r option"
  pending :: "'r list"
  fails :: bool

record group_row =
  gr_gid :: gid
  gr_name :: string
  gr_passwd :: string

text \<open>
  The store and the process resources.  The first ten fields describe what the row source
  and the query provider answer (per operation name, as passed to \<^verbatim>\<open>get_query\<close>,
  and for a bind per parameter index);
  the last four are the state the code changes: the trace of handle events, the next
  unused handle number, the depth to which the calling thread holds \<^verbatim>\<open>grent_mutex\<close>
  (a recursive mutex), and whether \<^verbatim>\<open>free\<close> was ever called on a pointer that was
  never initialised (the behaviour of the program is undefined from there on).
\<close>

record world =
  open_ok :: bool
  query_ok :: "string \<Rightarrow> bool"
  prepare_ok :: "string \<Rightarrow> bool"
  bind_ok :: "string \<Rightarrow> nat \<Rightarrow> bool"
  step_fail :: "string \<Rightarrow> bool"
  rows_setgrent :: "group_row list"
  rows_getgrnam :: "string \<Rightarrow> group_row list"
  rows_getgrgid :: "gid \<Rightarrow> group_row list"
  rows_initgroups :: "string \<Rightarrow> gid \<Rightarrow> gid list"
  rows_get_users :: "gid \<Rightarrow> string list"
  trace :: "event list"
  fresh :: nat
  mutex :: nat
  wild_free :: bool

text \<open>\<^verbatim>\<open>sqlite3_open\<close> hands out a connection handle whether or not it succeeds.\<close>

definition sqlite3_open :: "world \<Rightarrow> bool \<times> nat \<times> world" where
  "sqlite3_open w =
     (open_ok w, fresh w, w\<lparr>trace := trace w @ [Open (fresh w)], fresh := Suc (fresh w)\<rparr>)"

text \<open>
  A connection is busy while a statement prepared on it has not been finalized.
  \<^verbatim>\<open>sqlite3_close\<close> of the NULL handle does nothing; on a busy connection it returns
  \<^verbatim>\<open>SQLITE_BUSY\<close> and leaves the connection open; otherwise it releases the connection.
  No caller looks at its return code.
\<close>

definition busy :: "event list \<Rightarrow> nat \<Rightarrow> bool" where
  "busy tr c =
     list_ex (\<lambda>e. case e of Prepare s c' \<Rightarrow> c' = c \<and> Finalize s \<notin> set tr | _ \<Rightarrow> False) tr"

definition sqlite3_close :: "nat \<Rightarrow> world \<Rightarrow> world" where
  "sqlite3_close pDb w =
     (if pDb = 0 then w
      else if busy (trace w) pDb then w\<lparr>trace := trace w @ [Busy pDb]\<rparr>
      else w\<lparr>trace := trace w @ [Close pDb]\<rparr>)"

definition pthread_mutex_lock :: "world \<Rightarrow> world" where
  "pthread_mutex_lock w = w\<lparr>mutex := Suc (mutex w)\<rparr>"

definition pthread_mutex_unlock :: "world \<Rightarrow> world" where
  "pthread_mutex_unlock w = w\<lparr>mutex := mutex w - 1\<rparr>"

definition get_query :: "world \<Rightarrow> string \<Rightarrow> bool" where
  "get_query w name = query_ok w name"

text \<open>\<^verbatim>\<open>sqlite3_prepare\<close> leaves the statement pointer NULL when it fails.\<close>

definition sqlite3_prepare ::
  "world \<Rightarrow> nat \<Rightarrow> string \<Rightarrow> 'r list \<Rightarrow> 'r stmt option \<times> world" where
  "sqlite3_prepare w pDb name rows =
     (if prepare_ok w name
      then (Some \<lparr>sid = fresh w, current = None, pending = rows, fails = step_fail w name\<rparr>,
            w\<lparr>trace := trace w @ [Prepare (fresh w) pDb], fresh := Suc (fresh w)\<rparr>)
      else (None, w))"

text \<open>\<^verbatim>\<open>sqlite3_finalize\<close> of a NULL statement does nothing.\<close>

definition sqlite3_finalize :: "'r stmt option \<Rightarrow> world \<Rightarrow> world" where
  "sqlite3_finalize pSt w =
     (case pSt of None \<Rightarrow> w | Some s \<Rightarrow> w\<lparr>trace := trace w @ [Finalize (sid s)]\<rparr>)"

definition sqlite3_step :: "'r stmt \<Rightarrow> sqlite_rc \<times> 'r stmt" where
  "sqlite3_step s =
     (case pending s of
        [] \<Rightarrow> (if fails s then SQLITE_ERROR else SQLITE_DONE, s\<lparr>current := None\<rparr>)
      | r # rs \<Rightarrow> (SQLITE_ROW, s\<lparr>current := Some r, pending := rs\<rparr>))"

subsection \<open>C integers and strings\<close>

text \<open>
  The platform is LP64: \<^verbatim>\<open>sizeof(char * )\<close> is 8, \<^verbatim>\<open>size_t\<close> has 64 bits and
  \<^verbatim>\<open>int\<close> has 32.  \<open>c_int\<close> is the conversion of a \<^verbatim>\<open>size_t\<close> value to
  \<^verbatim>\<open>int\<close>, \<open>size_t_of\<close> the conversion of an \<^verbatim>\<open>int\<close> to \<^verbatim>\<open>size_t\<close>
  that a comparison or subtraction with a \<^verbatim>\<open>size_t\<close> operand performs.
\<close>

definition sizeof_ptr :: nat where
  "sizeof_ptr = 8"

definition c_int :: "nat \<Rightarrow> int" where
  "c_int n = sint (word_of_nat n :: 32 word)"

definition size_t_of :: "int \<Rightarrow> nat" where
  "size_t_of i = unat (word_of_int i :: 64 word)"

definition NUL :: char where
  "NUL = CHR 0x00"

text \<open>A C string ends at its first NUL byte.\<close>

definition c_str :: "string \<Rightarrow> string" where
  "c_str s = takeWhile (\<lambda>c. c \<noteq> NUL) s"

definition strlen :: "string \<Rightarrow> nat" where
  "strlen s = length (c_str s)"

definition strdup :: "string \<Rightarrow> string" where
  "strdup s = c_str s"

subsection \<open>The caller's memory\<close>

text \<open>
  Memory is byte addressed.  A byte holds a character or one of the eight bytes of a
  pointer (the pointer's value and the byte's position in it); the pointer value 0 is NULL.
  The memory is kept as the list of the byte stores made so far, the most recent first, so
  that both what a byte holds and which bytes were ever written can be read from it.
\<close>

datatype mval = Chr char | PtrFrag addr nat

type_synonym heap = "(addr \<times> mval) list"

definition store_bytes :: "heap \<Rightarrow> addr \<Rightarrow> mval list \<Rightarrow> heap" where
  "store_bytes h a vs = rev (zip [a ..< a + length vs] vs) @ h"

definition strcpy :: "heap \<Rightarrow> addr \<Rightarrow> string \<Rightarrow> heap" where
  "strcpy h dst s = store_bytes h dst (map Chr (c_str s) @ [Chr NUL])"

definition store_ptr :: "heap \<Rightarrow> addr \<Rightarrow> addr \<Rightarrow> heap" where
  "store_ptr h a p = store_bytes h a (map (PtrFrag p) [0 ..< sizeof_ptr])"

definition load_ptr :: "heap \<Rightarrow> addr \<Rightarrow> addr option" where
  "load_ptr h a =
     (case map_of h a of
        Some (PtrFrag p _) \<Rightarrow>
          if list_all (\<lambda>k. map_of h (a + k) = Some (PtrFrag p k)) [0 ..< sizeof_ptr]
          then Some p else None
      | _ \<Rightarrow> None)"

fun load_cstr :: "heap \<Rightarrow> addr \<Rightarrow> nat \<Rightarrow> string option" where
  "load_cstr h a 0 = None"
| "load_cstr h a (Suc n) =
     (case map_of h a of
        Some (Chr c) \<Rightarrow>
          if c = NUL then Some [] else map_option (Cons c) (load_cstr h (Suc a) n)
      | _ \<Rightarrow> None)"

text \<open>
  Reading a NULL-terminated pointer table at \<open>a\<close> and the strings it points to, looking at
  no more than \<open>n\<close> slots and no more than \<open>n\<close> bytes of each string.
\<close>

fun load_members :: "heap \<Rightarrow> addr \<Rightarrow> nat \<Rightarrow> nat \<Rightarrow> string list option" where
  "load_members h a n 0 = None"
| "load_members h a n (Suc k) =
     (case load_ptr h a of
        None \<Rightarrow> None
      | Some p \<Rightarrow>
          if p = 0 then Some []
          else (case load_cstr h p n of
                  None \<Rightarrow> None
                | Some s \<Rightarrow> map_option (Cons s) (load_members h (a + sizeof_ptr) n k)))"

section \<open>The membership builder\<close>

text \<open>
  The gathering loop of \<^verbatim>\<open>get_users\<close> (a do-while): the statement is positioned on a
  row; its text is duplicated into the temporary table, whose capacity \<open>msize\<close> doubles
  when it is full, and the statement is stepped until it answers anything but a row.
\<close>

function gather :: "string stmt \<Rightarrow> string list \<Rightarrow> nat \<Rightarrow> string list \<times> nat \<times> string stmt" where
  "gather pSt members msize =
     (let member = (case current pSt of Some m \<Rightarrow> m | None \<Rightarrow> []);
          msize = (if msize = length members then msize * 2 else msize);
          members = members @ [strdup member];
          (res, pSt) = sqlite3_step pSt
      in if res = SQLITE_ROW then gather pSt members msize else (members, msize, pSt))"
  by pat_completeness auto
termination
  by (relation "measure (\<lambda>(pSt, members, msize). length (pending pSt))")
     (auto simp: sqlite3_step_def split: list.splits if_splits)

text \<open>
  The packing loop: \<open>i\<close> counts the members packed, \<open>ms\<close> are those still to pack.  The
  result says whether the loop ran to its end, and gives the final \<open>i\<close> and memory.
  Each subtraction from \<open>buflen\<close> comes after the test that it does not go below zero.
\<close>

fun pack_loop :: "string list \<Rightarrow> nat \<Rightarrow> addr \<Rightarrow> addr \<Rightarrow> nat \<Rightarrow> heap \<Rightarrow> bool \<times> nat \<times> heap" where
  "pack_loop [] i ptr_area next_member buflen h = (True, i, h)"
| "pack_loop (m # ms) i ptr_area next_member buflen h =
     (let l = c_int (strlen m + 1)
      in if buflen < size_t_of l then (False, i, h)
         else let h = strcpy h next_member m;
                  h = store_ptr h (ptr_area + i * sizeof_ptr) next_member;
                  buflen = buflen - size_t_of l;
                  next_member = nat (int next_member + l)
              in pack_loop ms (i + 1) ptr_area next_member buflen h)"

text \<open>
  Lines 480 to 504.  The final \<^verbatim>\<open>return TRUE\<close> is the success status: the macro is
  not defined in this file; its value 1 is that of \<open>NSS_STATUS_SUCCESS\<close>.
\<close>

definition pack_members ::
  "string list \<Rightarrow> heap \<Rightarrow> addr \<Rightarrow> nat \<Rightarrow> errno option \<Rightarrow> nss_status \<times> heap \<times> errno option" where
  "pack_members members h buffer buflen errnop =
     (let mcount = length members;
          ptr_area = buffer;
          ptr_area_size = c_int ((mcount + 1) * sizeof_ptr)
      in if buflen < size_t_of ptr_area_size then (NSS_STATUS_TRYAGAIN, h, Some ERANGE)
         else let next_member = nat (int buffer + ptr_area_size);
                  buflen = buflen - size_t_of ptr_area_size;
                  (ok, i, h) = pack_loop members 0 ptr_area next_member buflen h
              in if \<not> ok then (NSS_STATUS_TRYAGAIN, h, Some ERANGE)
                 else (NSS_STATUS_SUCCESS, store_ptr h (ptr_area + i * sizeof_ptr) 0, errnop))"

definition get_users ::
  "world \<Rightarrow> nat \<Rightarrow> gid \<Rightarrow> heap \<Rightarrow> addr \<Rightarrow> nat \<Rightarrow> errno option
     \<Rightarrow> nss_status \<times> heap \<times> errno option \<times> world" where
  "get_users w pDb gid h buffer buflen errnop =
     (if \<not> get_query w ''get_users''
      then (NSS_STATUS_UNAVAIL, h, errnop, sqlite3_close pDb w)
      else case sqlite3_prepare w pDb ''get_users'' (rows_get_users w gid) of
        (None, w) \<Rightarrow> (NSS_STATUS_UNAVAIL, h, errnop, sqlite3_finalize (None :: string stmt option) w)
      | (Some pSt, w) \<Rightarrow>
          if \<not> bind_ok w ''get_users'' 1
          then (NSS_STATUS_UNAVAIL, h, errnop, sqlite3_finalize (Some pSt) w)
          else let (res, pSt) = sqlite3_step pSt
               in if res \<noteq> SQLITE_ROW
                  then let w = sqlite3_finalize (Some pSt) w
                       in if res = SQLITE_DONE
                          then if buflen < sizeof_ptr
                               then (NSS_STATUS_TRYAGAIN, h, Some ERANGE, w)
                               else (NSS_STATUS_SUCCESS, store_ptr h buffer 0, errnop, w)
                          else (NSS_STATUS_UNAVAIL, h, errnop, w)
                  else let (members, msize, pSt) = gather pSt [] 20;
                           w = sqlite3_finalize (Some pSt) w;
                           (res, h, errnop) = pack_members members h buffer buflen errnop
                       in (res, h, errnop, w))"

section \<open>Helpers of \<^verbatim>\<open>utils.c\<close>\<close>

text \<open>
  Modelled from the spec: \<^verbatim>\<open>res2nss_status\<close>, defined in \<^verbatim>\<open>utils.c\<close>, which is
  not part of the sources at hand.  A fetched row is success and releases nothing; no more
  rows is the not-found status and a store failure is the unavailable status, and in both
  the statement is finalized and the connection closed (the callers in \<^verbatim>\<open>groups.c\<close>
  return at once on any status but success, without releasing anything themselves).
\<close>

definition res2nss_status :: "sqlite_rc \<Rightarrow> nat \<Rightarrow> 'r stmt option \<Rightarrow> world \<Rightarrow> nss_status \<times> world" where
  "res2nss_status res pDb pSt w =
     (case res of
        SQLITE_ROW \<Rightarrow> (NSS_STATUS_SUCCESS, w)
      | SQLITE_DONE \<Rightarrow> (NSS_STATUS_NOTFOUND, sqlite3_close pDb (sqlite3_finalize pSt w))
      | SQLITE_ERROR \<Rightarrow> (NSS_STATUS_UNAVAIL, sqlite3_close pDb (sqlite3_finalize pSt w)))"

text \<open>
  Modelled from the spec: \<^verbatim>\<open>fill_group_sql\<close> of \<^verbatim>\<open>utils.c\<close>, the row-to-record
  mapper: the record of the row the statement is positioned on (\<open>entry\<close> is left as it
  is when there is none).
\<close>

definition fill_group_sql :: "group_row \<Rightarrow> group_row stmt \<Rightarrow> group_row" where
  "fill_group_sql entry pSt = (case current pSt of Some r \<Rightarrow> r | None \<Rightarrow> entry)"

text \<open>The caller's \<^verbatim>\<open>struct group\<close>: pointers into the caller's buffer, and the id.\<close>

record group_buf =
  gb_name :: addr
  gb_gid :: gid
  gb_mem :: addr

text \<open>
  Modelled from the spec: \<^verbatim>\<open>fill_group\<close> of \<^verbatim>\<open>utils.c\<close>, the record marshaler.
  It checks that the buffer has room for the group name, copies it, and hands the rest of
  the buffer to the membership builder \<open>get_users\<close>, whose status it returns.  On a
  shortfall it fails with \<open>NSS_STATUS_TRYAGAIN\<close> and \<open>ERANGE\<close>.
\<close>

definition fill_group ::
  "world \<Rightarrow> nat \<Rightarrow> group_buf \<Rightarrow> heap \<Rightarrow> addr \<Rightarrow> nat \<Rightarrow> group_row \<Rightarrow> errno option
     \<Rightarrow> nss_status \<times> group_buf \<times> heap \<times> errno option \<times> world" where
  "fill_group w pDb gbuf h buf buflen entry errnop =
     (let name_length = strlen (gr_name entry) + 1
      in if buflen < name_length then (NSS_STATUS_TRYAGAIN, gbuf, h, Some ERANGE, w)
         else let h = strcpy h buf (gr_name entry);
                  gbuf = gbuf\<lparr>gb_name := buf, gb_gid := gr_gid entry, gb_mem := buf + name_length\<rparr>;
                  (res, h, errnop, w) =
                     get_users w pDb (gr_gid entry) h (buf + name_length) (buflen - name_length) errnop
              in (res, gbuf, h, errnop, w))"

section \<open>Point lookups\<close>



section \<open>Supplementary groups of a user\<close>

text \<open>
  The caller's vector: \<open>gv_start\<close> is its logical length (\<^verbatim>\<open>*start\<close>),
  \<open>gv_size\<close> its capacity (\<^verbatim>\<open>*size\<close>) and \<open>gv_groupsp\<close> the allocated
  cells (a cell that was never written holds nothing).  \<open>gv_overrun\<close> records a store outside the allocated cells, which the model does not apply.
\<close>

record groups_vec =
  gv_start :: int
  gv_size :: int
  gv_groupsp :: "gid option list"
  gv_overrun :: bool

text \<open>\<^verbatim>\<open>realloc\<close> to \<open>n\<close> cells keeps the cells below \<open>n\<close>.\<close>

definition realloc :: "gid option list \<Rightarrow> int \<Rightarrow> gid option list" where
  "realloc cells n = take (nat n) cells @ replicate (nat n - length cells) None"

definition store_gid :: "groups_vec \<Rightarrow> gid \<Rightarrow> groups_vec" where
  "store_gid v g =
     (if 0 \<le> gv_start v \<and> gv_start v < int (length (gv_groupsp v))
      then v\<lparr>gv_groupsp := (gv_groupsp v)[nat (gv_start v) := Some g]\<rparr>
      else v\<lparr>gv_overrun := True\<rparr>)"

text \<open>
  Lines 362 to 379: the vector is full, so it grows, or the call gives up (\<open>None\<close>) when
  the limit does not allow it.
\<close>

definition grow :: "int \<Rightarrow> groups_vec \<Rightarrow> groups_vec option" where
  "grow limit v =
     (if gv_start v = gv_size v
      then (if limit > 0
            then (if gv_size v < limit
                  then let v = v\<lparr>gv_size := (if limit < gv_size v * 2 then limit else gv_size v * 2)\<rparr>
                       in Some (v\<lparr>gv_groupsp := realloc (gv_groupsp v) (gv_size v)\<rparr>)
                  else None)
            else let v = v\<lparr>gv_size := gv_size v * 2\<rparr>
                 in Some (v\<lparr>gv_groupsp := realloc (gv_groupsp v) (gv_size v)\<rparr>))
      else Some v)"

text \<open>
  The do-while loop of lines 358 to 383.  The result says whether the loop ran until the
  rows were exhausted (\<open>True\<close>) or gave up at the limit (\<open>False\<close>).
\<close>

function collect :: "gid stmt \<Rightarrow> int \<Rightarrow> groups_vec \<Rightarrow> bool \<times> groups_vec \<times> gid stmt" where
  "collect pSt limit v =
     (let gid = (case current pSt of Some g \<Rightarrow> g | None \<Rightarrow> 0)
      in case grow limit v of
           None \<Rightarrow> (False, v, pSt)
         | Some v \<Rightarrow>
             let v = store_gid v gid;
                 v = v\<lparr>gv_start := gv_start v + 1\<rparr>;
                 (res, pSt) = sqlite3_step pSt
             in if res = SQLITE_ROW then collect pSt limit v else (True, v, pSt))"
  by pat_completeness auto
termination
  by (relation "measure (\<lambda>(pSt, limit, v). length (pending pSt))")
     (auto simp: sqlite3_step_def split: list.splits if_splits)

definition initgroups_dyn ::
  "world \<Rightarrow> string \<Rightarrow> gid \<Rightarrow> groups_vec \<Rightarrow> int \<Rightarrow> errno option
     \<Rightarrow> nss_status \<times> groups_vec \<times> errno option \<times> world" where
  "initgroups_dyn w user gid v limit errnop =
     (let (ok, pDb, w) = sqlite3_open w
      in if \<not> ok then (NSS_STATUS_UNAVAIL, v, errnop, sqlite3_close pDb w)
         else if \<not> get_query w ''initgroups_dyn''
         then (NSS_STATUS_UNAVAIL, v, errnop, sqlite3_close pDb w)
         else case sqlite3_prepare w pDb ''initgroups_dyn'' (rows_initgroups w user gid) of
           (None, w) \<Rightarrow>
             (NSS_STATUS_UNAVAIL, v, errnop,
              sqlite3_close pDb (sqlite3_finalize (None :: gid stmt option) w))
         | (Some pSt, w) \<Rightarrow>
             if \<not> bind_ok w ''initgroups_dyn'' 1
             then (NSS_STATUS_UNAVAIL, v, errnop, sqlite3_close pDb (sqlite3_finalize (Some pSt) w))
             else if \<not> bind_ok w ''initgroups_dyn'' 2
             then (NSS_STATUS_UNAVAIL, v, errnop, sqlite3_close pDb (sqlite3_finalize (Some pSt) w))
             else let (rc, pSt) = sqlite3_step pSt;
                      (res, w) = res2nss_status rc pDb (Some pSt) w
                  in if res \<noteq> NSS_STATUS_SUCCESS then (res, v, errnop, w)
                     else let (done, v, pSt) = collect pSt limit v
                          in if \<not> done
                             then (NSS_STATUS_TRYAGAIN, v, Some ERANGE,
                                   sqlite3_close pDb (sqlite3_finalize (Some pSt) w))
                             else let v = v\<lparr>gv_groupsp := realloc (gv_groupsp v) (gv_start v)\<rparr>;
                                      v = v\<lparr>gv_size := gv_start v\<rparr>
                                  in (NSS_STATUS_SUCCESS, v, errnop,
                                      sqlite3_close pDb (sqlite3_finalize (Some pSt) w)))"

section \<open>The enumeration cursor\<close>

text \<open>The fields of the static \<^verbatim>\<open>grent_data\<close>; \<open>grent_data\<close> is its initial value.\<close>

record grent =
  gd_pDb :: nat
  gd_pSt :: "group_row stmt option"
  gd_try_again :: bool
  gd_entry :: group_row

definition grent_data :: grent where
  "grent_data = \<lparr>gd_pDb = 0, gd_pSt = None, gd_try_again = False,
                  gd_entry = \<lparr>gr_gid = 0, gr_name = [], gr_passwd = []\<rparr>\<rparr>"

text \<open>
  When the cursor is already open, \<^verbatim>\<open>sql\<close> was never assigned, and line 86 frees it.
\<close>

definition setgrent :: "grent \<Rightarrow> world \<Rightarrow> nss_status \<times> grent \<times> world" where
  "setgrent g w =
     (let w = pthread_mutex_lock w
      in if gd_pDb g = 0
         then let (ok, db, w) = sqlite3_open w;
                  g = g\<lparr>gd_pDb := db\<rparr>
              in if \<not> ok then (NSS_STATUS_UNAVAIL, g, w)
                 else if \<not> get_query w ''setgrent''
                 then (NSS_STATUS_UNAVAIL, g, sqlite3_close (gd_pDb g) w)
                 else let (st, w) = sqlite3_prepare w (gd_pDb g) ''setgrent'' (rows_setgrent w);
                          g = g\<lparr>gd_pSt := st\<rparr>
                      in if st = None
                         then (NSS_STATUS_UNAVAIL, g,
                               sqlite3_close (gd_pDb g) (sqlite3_finalize (gd_pSt g) w))
                         else (NSS_STATUS_SUCCESS, g, pthread_mutex_unlock w)
         else (NSS_STATUS_SUCCESS, g, pthread_mutex_unlock (w\<lparr>wild_free := True\<rparr>)))"

definition endgrent :: "grent \<Rightarrow> world \<Rightarrow> nss_status \<times> grent \<times> world" where
  "endgrent g w =
     (let w = pthread_mutex_lock w;
          (g, w) = (if gd_pDb g \<noteq> 0
                    then (g\<lparr>gd_pDb := 0\<rparr>, sqlite3_close (gd_pDb g) (sqlite3_finalize (gd_pSt g) w))
                    else (g, w))
      in (NSS_STATUS_SUCCESS, g, pthread_mutex_unlock w))"

text \<open>
  Lines 136 to 155 of \<^verbatim>\<open>_nss_sqlite_getgrent_r\<close>: step the cursor and marshal the row.
  Stepping a NULL statement is an error of the store.
\<close>

definition getgrent_fetch ::
  "grent \<Rightarrow> world \<Rightarrow> group_buf \<Rightarrow> heap \<Rightarrow> addr \<Rightarrow> nat \<Rightarrow> errno option
     \<Rightarrow> nss_status \<times> group_buf \<times> heap \<times> errno option \<times> grent \<times> world" where
  "getgrent_fetch g w gbuf h buf buflen errnop =
     (let (rc, st) = (case gd_pSt g of
                        None \<Rightarrow> (SQLITE_ERROR, None)
                      | Some s \<Rightarrow> (let (rc, s) = sqlite3_step s in (rc, Some s)));
          g = g\<lparr>gd_pSt := st\<rparr>;
          (res, w) = res2nss_status rc (gd_pDb g) (gd_pSt g) w
      in if res \<noteq> NSS_STATUS_SUCCESS
         then (res, gbuf, h, errnop, g\<lparr>gd_pDb := 0\<rparr>, pthread_mutex_unlock w)
         else let g = (case gd_pSt g of Some s \<Rightarrow> g\<lparr>gd_entry := fill_group_sql (gd_entry g) s\<rparr> | None \<Rightarrow> g);
                  (res, gbuf, h, errnop, w) = fill_group w (gd_pDb g) gbuf h buf buflen (gd_entry g) errnop
              in if res = NSS_STATUS_TRYAGAIN \<and> errnop = Some ERANGE
                 then (NSS_STATUS_TRYAGAIN, gbuf, h, errnop, g\<lparr>gd_try_again := True\<rparr>,
                       pthread_mutex_unlock w)
                 else (NSS_STATUS_SUCCESS, gbuf, h, errnop, g, pthread_mutex_unlock w))"

definition getgrent_r ::
  "grent \<Rightarrow> world \<Rightarrow> group_buf \<Rightarrow> heap \<Rightarrow> addr \<Rightarrow> nat \<Rightarrow> errno option
     \<Rightarrow> nss_status \<times> group_buf \<times> heap \<times> errno option \<times> grent \<times> world" where
  "getgrent_r g w gbuf h buf buflen errnop =
     (let w = pthread_mutex_lock w;
          (g, w) = (if gd_pDb g = 0 then (let (r, g, w) = setgrent g w in (g, w)) else (g, w))
      in if gd_try_again g
         then let (res, gbuf, h, errnop, w) = fill_group w (gd_pDb g) gbuf h buf buflen (gd_entry g) errnop
              in if res \<noteq> NSS_STATUS_TRYAGAIN \<or> errnop \<noteq> Some ERANGE
                 then (res, gbuf, h, errnop, g\<lparr>gd_try_again := False\<rparr>, pthread_mutex_unlock w)
                 else getgrent_fetch g w gbuf h buf buflen errnop
         else getgrent_fetch g w gbuf h buf buflen errnop)"

section \<open>Notions used to state the properties\<close>

text \<open>
  \<open>wrote h h' A\<close>: the memory \<open>h'\<close> is \<open>h\<close> after some stores, all of them to
  addresses in \<open>A\<close>.  \<open>holds_ptr\<close> and \<open>holds_str\<close> say that the memory holds a pointer,
  or a NUL-terminated string, at an address.  \<open>string_bytes\<close> is the number of bytes the
  strings take with their terminators.  \<open>int_sized\<close> says that the size of the pointer
  table and the size of every string fit the C \<^verbatim>\<open>int\<close> variables \<^verbatim>\<open>ptr_area_size\<close>
  and \<^verbatim>\<open>l\<close>.  \<open>no_fault\<close> says that the store fails at no step of the named
  operation (the query text, the prepare, the bind of the first parameter, the steps), and \<open>after_stmt\<close> is the world after one statement was prepared on a connection and
  finalized.
\<close>

definition wrote :: "heap \<Rightarrow> heap \<Rightarrow> addr set \<Rightarrow> bool" where
  "wrote h h' A \<longleftrightarrow> (\<exists>new. h' = new @ h \<and> fst ` set new \<subseteq> A)"

definition string_bytes :: "string list \<Rightarrow> nat" where
  "string_bytes ms = sum_list (map (\<lambda>m. strlen m + 1) ms)"

definition holds_ptr :: "heap \<Rightarrow> addr \<Rightarrow> addr \<Rightarrow> bool" where
  "holds_ptr h a p \<longleftrightarrow> (\<forall>k < sizeof_ptr. map_of h (a + k) = Some (PtrFrag p k))"

definition holds_str :: "heap \<Rightarrow> addr \<Rightarrow> string \<Rightarrow> bool" where
  "holds_str h a s \<longleftrightarrow>
     (\<forall>k < length s. map_of h (a + k) = Some (Chr (s ! k))) \<and>
     map_of h (a + length s) = Some (Chr NUL) \<and> NUL \<notin> set s"

definition int_sized :: "string list \<Rightarrow> bool" where
  "int_sized ms \<longleftrightarrow>
     (length ms + 1) * sizeof_ptr < 2 ^ 31 \<and> (\<forall>m\<in>set ms. strlen m + 1 < 2 ^ 31)"

definition no_fault :: "world \<Rightarrow> string \<Rightarrow> bool" where
  "no_fault w name \<longleftrightarrow>
     query_ok w name \<and> prepare_ok w name \<and> bind_ok w name 1 \<and> \<not> step_fail w name"

definition after_stmt :: "world \<Rightarrow> nat \<Rightarrow> world" where
  "after_stmt w pDb =
     w\<lparr>trace := trace w @ [Prepare (fresh w) pDb, Finalize (fresh w)], fresh := Suc (fresh w)\<rparr>"

text \<open>
  \<open>vec_ok\<close> is what the caller of \<^verbatim>\<open>_nss_sqlite_initgroups_dyn\<close> provides: a vector
  with at least one cell, as many cells as its capacity says, a length between 0 and the
  capacity, and a capacity within the limit when there is one.  \<open>initgroups_ready\<close> says
  that the store fails at none of the steps before the first row is fetched, and
  \<open>shrink\<close> is the final reallocation of lines 384 and 385.
\<close>

definition vec_ok :: "int \<Rightarrow> groups_vec \<Rightarrow> bool" where
  "vec_ok limit v \<longleftrightarrow>
     0 \<le> gv_start v \<and> gv_start v \<le> gv_size v \<and> 0 < gv_size v \<and>
     int (length (gv_groupsp v)) = gv_size v \<and> (0 < limit \<longrightarrow> gv_size v \<le> limit) \<and>
     \<not> gv_overrun v"

definition initgroups_ready :: "world \<Rightarrow> bool" where
  "initgroups_ready w \<longleftrightarrow>
     open_ok w \<and> query_ok w ''initgroups_dyn'' \<and> prepare_ok w ''initgroups_dyn'' \<and>
     bind_ok w ''initgroups_dyn'' 1 \<and> bind_ok w ''initgroups_dyn'' 2"

definition shrink :: "groups_vec \<Rightarrow> groups_vec" where
  "shrink v = v\<lparr>gv_groupsp := realloc (gv_groupsp v) (gv_start v), gv_size := gv_start v\<rparr>"

definition example_vec :: groups_vec where
  "example_vec = \<lparr>gv_start = 0, gv_size = 2, gv_groupsp = [None, None], gv_overrun = False\<rparr>"

text \<open>
  A store without failures, used to instantiate the properties: the groups \<open>staff\<close> (id 100,
  members alice and bob) and \<open>ops\<close> (id 200, member carol); user alice has the
  supplementary groups 100, 200 and 300.
\<close>

definition staff :: group_row where
  "staff = \<lparr>gr_gid = 100, gr_name = ''staff'', gr_passwd = ''x''\<rparr>"

definition ops :: group_row where
  "ops = \<lparr>gr_gid = 200, gr_name = ''ops'', gr_passwd = ''x''\<rparr>"

definition example_store :: world where
  "example_store =
     \<lparr>open_ok = True, query_ok = (\<lambda>name. True), prepare_ok = (\<lambda>name. True),
      bind_ok = (\<lambda>name k. True), step_fail = (\<lambda>name. False),
      rows_setgrent = [staff, ops],
      rows_getgrnam = (\<lambda>n. filter (\<lambda>g. gr_name g = n) [staff, ops]),
      rows_getgrgid = (\<lambda>i. filter (\<lambda>g. gr_gid g = i) [staff, ops]),
      rows_initgroups = (\<lambda>u g. if u = ''alice'' then [100, 200, 300] else []),
      rows_get_users = (\<lambda>g. if g = 100 then [''alice'', ''bob'']
                             else if g = 200 then [''carol''] else []),
      trace = [], fresh = 1, mutex = 0, wild_free = False\<rparr>"

definition example_gbuf :: group_buf where
  "example_gbuf = \<lparr>gb_name = 0, gb_gid = 0, gb_mem = 0\<rparr>"

text \<open>Stores that fail at one step: the open, the query text of \<open>get_users\<close>, its prepare.\<close>

definition store_unopenable :: world where
  "store_unopenable = example_store\<lparr>open_ok := False\<rparr>"


definition store_bad_members_query :: world where
  "store_bad_members_query = example_store\<lparr>prepare_ok := (\<lambda>name. name \<noteq> ''get_users'')\<rparr>"

text \<open>
  A caller that enumerates: each call of \<open>getgrent_r\<close> gets a fresh group structure and
  a buffer at address 1000 of the given length; what is observed of a call is its status
  and the group id left in the structure.
\<close>

fun enumerate_calls :: "grent \<Rightarrow> world \<Rightarrow> nat list \<Rightarrow> (nss_status \<times> gid) list" where
  "enumerate_calls g w [] = []"
| "enumerate_calls g w (buflen # lens) =
     (case getgrent_r g w example_gbuf [] 1000 buflen None of
        (res, gbuf, h, errnop, g, w) \<Rightarrow> (res, gb_gid gbuf) # enumerate_calls g w lens)"





definition store_ops_first :: world where
  "store_ops_first = example_store\<lparr>rows_setgrent := [ops, staff]\<rparr>"

definition store_2p29_members :: world where
  "store_2p29_members = example_store\<lparr>rows_get_users := (\<lambda>g. replicate (2 ^ 29 - 1) [])\<rparr>"

definition store_2p28_members :: world where
  "store_2p28_members = example_store\<lparr>rows_get_users := (\<lambda>g. replicate (2 ^ 28 - 1) [])\<rparr>"

section \<open>Properties of the membership builder\<close>

lemma c_int_id: "n < 2 ^ 31 \<Longrightarrow> c_int n = int n"
  unfolding c_int_def
  by (simp add: signed_of_nat signed_take_bit_int_eq_self)

lemma size_t_of_id: "n < 2 ^ 31 \<Longrightarrow> size_t_of (int n) = n"
  unfolding size_t_of_def
  by (simp add: unat_of_nat take_bit_nat_eq_self)

lemma store_bytes_Cons:
  "store_bytes h a (v # vs) = store_bytes ((a, v) # h) (Suc a) vs"
proof -
  have "[a ..< a + length (v # vs)] = a # [Suc a ..< Suc a + length vs]"
    by (simp add: upt_conv_Cons del: upt_Suc)
  then show ?thesis
    unfolding store_bytes_def by simp
qed

lemma map_of_store_bytes:
  "map_of (store_bytes h a vs) x =
     (if a \<le> x \<and> x < a + length vs then Some (vs ! (x - a)) else map_of h x)"
proof (induction vs arbitrary: h a x)
  case Nil
  then show ?case by (auto simp: store_bytes_def)
next
  case (Cons v vs)
  show ?case
  proof (cases "x = a")
    case True
    then show ?thesis by (simp add: store_bytes_Cons Cons.IH)
  next
    case False
    then show ?thesis
      by (auto simp: store_bytes_Cons Cons.IH nth_Cons' Suc_diff_Suc)
  qed
qed

lemma wrote_refl: "wrote h h A"
  by (simp add: wrote_def)

lemma wrote_trans: "wrote h h1 A \<Longrightarrow> wrote h1 h2 B \<Longrightarrow> wrote h h2 (A \<union> B)"
  by (fastforce simp: wrote_def)

lemma wrote_mono: "wrote h h' A \<Longrightarrow> A \<subseteq> B \<Longrightarrow> wrote h h' B"
  by (auto simp: wrote_def)

lemma wrote_store_bytes: "wrote h (store_bytes h a vs) {a ..< a + length vs}"
proof -
  have "map fst (zip [a ..< a + length vs] vs) = [a ..< a + length vs]"
    by (rule map_fst_zip) simp
  then have "set (map fst (rev (zip [a ..< a + length vs] vs))) = {a ..< a + length vs}"
    by (simp add: rev_map [symmetric])
  then have "fst ` set (rev (zip [a ..< a + length vs] vs)) = {a ..< a + length vs}"
    by (simp only: set_map)
  then show ?thesis
    unfolding wrote_def store_bytes_def by blast
qed

lemma wrote_frame: "wrote h h' A \<Longrightarrow> x \<notin> A \<Longrightarrow> map_of h' x = map_of h x"
proof -
  assume "wrote h h' A" and x: "x \<notin> A"
  then obtain new where h': "h' = new @ h" and sub: "fst ` set new \<subseteq> A"
    by (auto simp: wrote_def)
  from x sub have "x \<notin> fst ` set new" by blast
  then have "map_of new x = None" by (simp add: map_of_eq_None_iff)
  then show ?thesis by (simp add: h' map_add_def)
qed

lemma NUL_notin_c_str: "NUL \<notin> set (c_str s)"
  by (auto simp: c_str_def dest: set_takeWhileD)

lemma holds_ptr_frame:
  "wrote h h' A \<Longrightarrow> A \<inter> {a ..< a + sizeof_ptr} = {} \<Longrightarrow> holds_ptr h a p \<Longrightarrow> holds_ptr h' a p"
  unfolding holds_ptr_def
proof (intro allI impI)
  fix k
  assume w: "wrote h h' A" and d: "A \<inter> {a ..< a + sizeof_ptr} = {}"
    and hp: "\<forall>k < sizeof_ptr. map_of h (a + k) = Some (PtrFrag p k)" and k: "k < sizeof_ptr"
  from d k have "a + k \<notin> A" by auto
  with w have "map_of h' (a + k) = map_of h (a + k)" by (rule wrote_frame)
  with hp k show "map_of h' (a + k) = Some (PtrFrag p k)" by simp
qed

lemma holds_str_frame:
  assumes w: "wrote h h' A" and d: "A \<inter> {a ..< a + length s + 1} = {}"
    and hs: "holds_str h a s"
  shows "holds_str h' a s"
proof -
  have eq: "map_of h' (a + k) = map_of h (a + k)" if "k \<le> length s" for k
  proof -
    from d that have "a + k \<notin> A" by auto
    with w show ?thesis by (rule wrote_frame)
  qed
  show ?thesis
    using hs unfolding holds_str_def by (simp add: eq)
qed

lemma holds_ptr_store_ptr: "holds_ptr (store_ptr h a p) a p"
  by (simp add: holds_ptr_def store_ptr_def map_of_store_bytes)

lemma holds_str_strcpy: "holds_str (strcpy h a m) a (c_str m)"
  by (auto simp: holds_str_def strcpy_def map_of_store_bytes nth_append NUL_notin_c_str)

lemma wrote_strcpy: "wrote h (strcpy h a m) {a ..< a + (strlen m + 1)}"
  using wrote_store_bytes [of h a "map Chr (c_str m) @ [Chr NUL]"]
  by (simp add: strcpy_def strlen_def)

lemma wrote_store_ptr: "wrote h (store_ptr h a p) {a ..< a + sizeof_ptr}"
  using wrote_store_bytes [of h a "map (PtrFrag p) [0 ..< sizeof_ptr]"]
  by (simp add: store_ptr_def)

lemma pack_loop_step:
  assumes "strlen m + 1 < 2 ^ 31"
  shows "pack_loop (m # ms) i pa nm bl h =
     (if bl < strlen m + 1 then (False, i, h)
      else pack_loop ms (i + 1) pa (nm + (strlen m + 1)) (bl - (strlen m + 1))
             (store_ptr (strcpy h nm m) (pa + i * sizeof_ptr) nm))"
proof -
  have a: "c_int (strlen m + 1) = int (strlen m + 1)"
    using assms by (rule c_int_id)
  have b: "size_t_of (int (strlen m + 1)) = strlen m + 1"
    using assms by (rule size_t_of_id)
  have c: "nat (int nm + int (strlen m + 1)) = nm + (strlen m + 1)"
    by (rule nat_int_add)
  show ?thesis
    by (simp only: pack_loop.simps a b c Let_def)
qed

lemma pack_loop_bounds:
  assumes "\<forall>m\<in>set ms. strlen m + 1 < 2 ^ 31"
    and "pack_loop ms i pa nm bl h = (ok, i', h')"
  shows "wrote h h' ({pa + i * sizeof_ptr ..< pa + (i + length ms) * sizeof_ptr} \<union> {nm ..< nm + bl})
         \<and> (ok \<longleftrightarrow> string_bytes ms \<le> bl) \<and> (ok \<longrightarrow> i' = i + length ms)"
  using assms
proof (induction ms arbitrary: i nm bl h)
  case Nil
  then show ?case by (simp add: wrote_refl string_bytes_def)
next
  case (Cons m ms)
  let ?l = "strlen m + 1"
  from Cons.prems have l: "?l < 2 ^ 31" and rest: "\<forall>m\<in>set ms. strlen m + 1 < 2 ^ 31"
    by simp_all
  show ?case
  proof (cases "bl < ?l")
    case True
    with l have "pack_loop (m # ms) i pa nm bl h = (False, i, h)"
      by (simp only: pack_loop_step if_True)
    with Cons.prems(2) have "ok = False" "h' = h" by simp_all
    with True show ?thesis
      by (simp add: wrote_refl string_bytes_def)
  next
    case False
    let ?h1 = "strcpy h nm m"
    let ?h2 = "store_ptr ?h1 (pa + i * sizeof_ptr) nm"
    from False l have "pack_loop (m # ms) i pa nm bl h =
        pack_loop ms (i + 1) pa (nm + ?l) (bl - ?l) ?h2"
      by (simp only: pack_loop_step if_False)
    with Cons.prems(2)
    have run: "pack_loop ms (i + 1) pa (nm + ?l) (bl - ?l) ?h2 = (ok, i', h')"
      by simp
    from Cons.IH [OF rest run]
    have w3: "wrote ?h2 h' ({pa + (i + 1) * sizeof_ptr ..< pa + (i + 1 + length ms) * sizeof_ptr}
                \<union> {nm + ?l ..< nm + ?l + (bl - ?l)})"
      and ok: "ok \<longleftrightarrow> string_bytes ms \<le> bl - ?l" and i': "ok \<longrightarrow> i' = i + 1 + length ms"
      by simp_all
    have w1: "wrote h ?h1 {nm ..< nm + ?l}" by (rule wrote_strcpy)
    have w2: "wrote ?h1 ?h2 {pa + i * sizeof_ptr ..< pa + i * sizeof_ptr + sizeof_ptr}"
      by (rule wrote_store_ptr)
    have "wrote h h' (({nm ..< nm + ?l} \<union> {pa + i * sizeof_ptr ..< pa + i * sizeof_ptr + sizeof_ptr})
            \<union> ({pa + (i + 1) * sizeof_ptr ..< pa + (i + 1 + length ms) * sizeof_ptr}
                \<union> {nm + ?l ..< nm + ?l + (bl - ?l)}))"
      by (rule wrote_trans [OF wrote_trans [OF w1 w2] w3])
    then have "wrote h h' ({pa + i * sizeof_ptr ..< pa + (i + length (m # ms)) * sizeof_ptr}
                 \<union> {nm ..< nm + bl})"
    proof (rule wrote_mono)
      show "({nm ..< nm + ?l} \<union> {pa + i * sizeof_ptr ..< pa + i * sizeof_ptr + sizeof_ptr})
            \<union> ({pa + (i + 1) * sizeof_ptr ..< pa + (i + 1 + length ms) * sizeof_ptr}
                \<union> {nm + ?l ..< nm + ?l + (bl - ?l)})
            \<subseteq> {pa + i * sizeof_ptr ..< pa + (i + length (m # ms)) * sizeof_ptr} \<union> {nm ..< nm + bl}"
        using False by (auto simp: algebra_simps)
    qed
    moreover have "ok \<longleftrightarrow> string_bytes (m # ms) \<le> bl"
      using ok False by (auto simp: string_bytes_def)
    moreover have "ok \<longrightarrow> i' = i + length (m # ms)"
      using i' by simp
    ultimately show ?thesis by blast
  qed
qed

lemma string_bytes_Nil: "string_bytes [] = 0"
  by (simp add: string_bytes_def)

lemma string_bytes_Cons: "string_bytes (m # ms) = strlen m + 1 + string_bytes ms"
  by (simp add: string_bytes_def)

lemma pack_loop_content:
  assumes "\<forall>m\<in>set ms. strlen m + 1 < 2 ^ 31"
    and "pa + (i + length ms) * sizeof_ptr \<le> nm"
    and "pack_loop ms i pa nm bl h = (True, i', h')"
    and "j < length ms"
  shows "holds_ptr h' (pa + (i + j) * sizeof_ptr) (nm + string_bytes (take j ms)) \<and>
         holds_str h' (nm + string_bytes (take j ms)) (c_str (ms ! j))"
  using assms
proof (induction ms arbitrary: i nm bl h j)
  case Nil
  then show ?case by simp
next
  case (Cons m ms)
  let ?l = "strlen m + 1"
  let ?h1 = "strcpy h nm m"
  let ?h2 = "store_ptr ?h1 (pa + i * sizeof_ptr) nm"
  from Cons.prems have l: "?l < 2 ^ 31" and rest: "\<forall>m\<in>set ms. strlen m + 1 < 2 ^ 31"
    by simp_all
  from Cons.prems(2) have geo: "pa + (i + 1 + length ms) * sizeof_ptr \<le> nm + ?l"
    by simp
  have fit: "\<not> bl < ?l"
  proof
    assume "bl < ?l"
    with l have "pack_loop (m # ms) i pa nm bl h = (False, i, h)"
      by (simp only: pack_loop_step if_True)
    with Cons.prems(3) show False by simp
  qed
  with l have "pack_loop (m # ms) i pa nm bl h =
      pack_loop ms (i + 1) pa (nm + ?l) (bl - ?l) ?h2"
    by (simp only: pack_loop_step if_False)
  with Cons.prems(3)
  have run: "pack_loop ms (i + 1) pa (nm + ?l) (bl - ?l) ?h2 = (True, i', h')"
    by simp
  show ?case
  proof (cases j)
    case 0
    from pack_loop_bounds [OF rest run]
    have w3: "wrote ?h2 h' ({pa + (i + 1) * sizeof_ptr ..< pa + (i + 1 + length ms) * sizeof_ptr}
                \<union> {nm + ?l ..< nm + ?l + (bl - ?l)})"
      by simp
    have slot_below: "pa + i * sizeof_ptr + sizeof_ptr \<le> nm"
      using Cons.prems(2) by (simp add: algebra_simps)
    have s1: "holds_str ?h1 nm (c_str m)" by (rule holds_str_strcpy)
    have s2: "holds_str ?h2 nm (c_str m)"
    proof (rule holds_str_frame [OF wrote_store_ptr _ s1])
      show "{pa + i * sizeof_ptr ..< pa + i * sizeof_ptr + sizeof_ptr}
              \<inter> {nm ..< nm + length (c_str m) + 1} = {}"
        using slot_below by auto
    qed
    have s3: "holds_str h' nm (c_str m)"
    proof (rule holds_str_frame [OF w3 _ s2])
      show "({pa + (i + 1) * sizeof_ptr ..< pa + (i + 1 + length ms) * sizeof_ptr}
                \<union> {nm + ?l ..< nm + ?l + (bl - ?l)}) \<inter> {nm ..< nm + length (c_str m) + 1} = {}"
        using Cons.prems(2) by (auto simp: strlen_def algebra_simps)
    qed
    have p2: "holds_ptr ?h2 (pa + i * sizeof_ptr) nm" by (rule holds_ptr_store_ptr)
    have p3: "holds_ptr h' (pa + i * sizeof_ptr) nm"
    proof (rule holds_ptr_frame [OF w3 _ p2])
      show "({pa + (i + 1) * sizeof_ptr ..< pa + (i + 1 + length ms) * sizeof_ptr}
                \<union> {nm + ?l ..< nm + ?l + (bl - ?l)})
              \<inter> {pa + i * sizeof_ptr ..< pa + i * sizeof_ptr + sizeof_ptr} = {}"
        using slot_below by (auto simp: algebra_simps)
    qed
    from s3 p3 0 show ?thesis by (simp add: string_bytes_def)
  next
    case (Suc j')
    with Cons.prems(4) have j': "j' < length ms" by simp
    from Cons.IH [OF rest geo run j'] Suc show ?thesis
      by (simp add: string_bytes_Cons algebra_simps)
  qed
qed

lemma load_ptr_holds: "holds_ptr h a p \<Longrightarrow> load_ptr h a = Some p"
proof -
  assume hp: "holds_ptr h a p"
  have "0 < sizeof_ptr" by (simp add: sizeof_ptr_def)
  with hp have "map_of h a = Some (PtrFrag p 0)"
    unfolding holds_ptr_def by (metis add.right_neutral)
  moreover from hp have "list_all (\<lambda>k. map_of h (a + k) = Some (PtrFrag p k)) [0 ..< sizeof_ptr]"
    by (simp add: holds_ptr_def list_all_iff)
  ultimately show ?thesis by (simp add: load_ptr_def)
qed

lemma load_cstr_holds: "holds_str h a s \<Longrightarrow> length s < n \<Longrightarrow> load_cstr h a n = Some s"
proof (induction s arbitrary: a n)
  case Nil
  then obtain n' where "n = Suc n'" by (cases n) auto
  with Nil show ?case by (simp add: holds_str_def)
next
  case (Cons c s)
  then obtain n' where n: "n = Suc n'" and len: "length s < n'" by (cases n) auto
  from Cons.prems(1) have c: "map_of h a = Some (Chr c)" and cn: "c \<noteq> NUL"
    unfolding holds_str_def by force+
  have "holds_str h (Suc a) s"
    using Cons.prems(1) unfolding holds_str_def
    by (auto simp: nth_Cons' split: if_splits)
  from Cons.IH [OF this len] c cn n show ?case by simp
qed

lemma load_members_holds:
  assumes "\<forall>j < length ss. holds_ptr h (a + j * sizeof_ptr) (p j) \<and> p j \<noteq> 0 \<and>
             holds_str h (p j) (ss ! j) \<and> length (ss ! j) < n"
    and "holds_ptr h (a + length ss * sizeof_ptr) 0"
  shows "load_members h a n (Suc (length ss)) = Some ss"
  using assms
proof (induction ss arbitrary: a p)
  case Nil
  then show ?case by (simp add: load_ptr_holds)
next
  case (Cons s ss)
  from Cons.prems(1) have first: "holds_ptr h a (p 0)" "p 0 \<noteq> 0" "holds_str h (p 0) s" "length s < n"
    by force+
  have "\<forall>j < length ss. holds_ptr h (a + sizeof_ptr + j * sizeof_ptr) (p (Suc j)) \<and> p (Suc j) \<noteq> 0 \<and>
             holds_str h (p (Suc j)) (ss ! j) \<and> length (ss ! j) < n"
  proof (intro allI impI)
    fix j assume "j < length ss"
    then have "Suc j < length (s # ss)" by simp
    with Cons.prems(1) have "holds_ptr h (a + Suc j * sizeof_ptr) (p (Suc j)) \<and> p (Suc j) \<noteq> 0 \<and>
             holds_str h (p (Suc j)) ((s # ss) ! Suc j) \<and> length ((s # ss) ! Suc j) < n"
      by blast
    then show "holds_ptr h (a + sizeof_ptr + j * sizeof_ptr) (p (Suc j)) \<and> p (Suc j) \<noteq> 0 \<and>
             holds_str h (p (Suc j)) (ss ! j) \<and> length (ss ! j) < n"
      by (simp add: algebra_simps)
  qed
  moreover from Cons.prems(2) have "holds_ptr h (a + sizeof_ptr + length ss * sizeof_ptr) 0"
    by (simp add: algebra_simps)
  ultimately have "load_members h (a + sizeof_ptr) n (Suc (length ss)) = Some ss"
    by (rule Cons.IH)
  with first show ?case
    by (simp add: load_ptr_holds load_cstr_holds)
qed

lemma pack_members_unfold:
  assumes "int_sized ms"
  shows "pack_members ms h buffer buflen errnop =
     (if buflen < (length ms + 1) * sizeof_ptr then (NSS_STATUS_TRYAGAIN, h, Some ERANGE)
      else case pack_loop ms 0 buffer (buffer + (length ms + 1) * sizeof_ptr)
                  (buflen - (length ms + 1) * sizeof_ptr) h of
             (ok, i, h') \<Rightarrow>
               if \<not> ok then (NSS_STATUS_TRYAGAIN, h', Some ERANGE)
               else (NSS_STATUS_SUCCESS, store_ptr h' (buffer + i * sizeof_ptr) 0, errnop))"
proof -
  from assms have r: "(length ms + 1) * sizeof_ptr < 2 ^ 31"
    by (simp add: int_sized_def)
  have a: "c_int ((length ms + 1) * sizeof_ptr) = int ((length ms + 1) * sizeof_ptr)"
    using r by (rule c_int_id)
  have b: "size_t_of (int ((length ms + 1) * sizeof_ptr)) = (length ms + 1) * sizeof_ptr"
    using r by (rule size_t_of_id)
  have c: "nat (int buffer + int ((length ms + 1) * sizeof_ptr)) = buffer + (length ms + 1) * sizeof_ptr"
    by (rule nat_int_add)
  show ?thesis
    unfolding pack_members_def Let_def a b c by (simp split: prod.splits)
qed

lemma pack_members_bounds:
  assumes sized: "int_sized ms"
    and run: "pack_members ms h buffer buflen errnop = (res, h', errnop')"
  shows "wrote h h' {buffer ..< buffer + buflen}"
    and "buflen < (length ms + 1) * sizeof_ptr \<Longrightarrow>
           res = NSS_STATUS_TRYAGAIN \<and> errnop' = Some ERANGE \<and> h' = h"
    and "res = NSS_STATUS_SUCCESS \<longleftrightarrow> (length ms + 1) * sizeof_ptr + string_bytes ms \<le> buflen"
    and "res \<noteq> NSS_STATUS_SUCCESS \<Longrightarrow> res = NSS_STATUS_TRYAGAIN \<and> errnop' = Some ERANGE"
proof -
  let ?pt = "(length ms + 1) * sizeof_ptr"
  from sized have rest: "\<forall>m\<in>set ms. strlen m + 1 < 2 ^ 31"
    by (simp add: int_sized_def)
  have all: "wrote h h' {buffer ..< buffer + buflen} \<and>
      (buflen < ?pt \<longrightarrow> res = NSS_STATUS_TRYAGAIN \<and> errnop' = Some ERANGE \<and> h' = h) \<and>
      (res = NSS_STATUS_SUCCESS \<longleftrightarrow> ?pt + string_bytes ms \<le> buflen) \<and>
      (res \<noteq> NSS_STATUS_SUCCESS \<longrightarrow> res = NSS_STATUS_TRYAGAIN \<and> errnop' = Some ERANGE)"
  proof (cases "buflen < ?pt")
    case True
    with run sized show ?thesis
      by (simp add: pack_members_unfold wrote_refl)
  next
    case False
    obtain ok i h1 where loop: "pack_loop ms 0 buffer (buffer + ?pt) (buflen - ?pt) h = (ok, i, h1)"
      by (cases "pack_loop ms 0 buffer (buffer + ?pt) (buflen - ?pt) h") auto
    from pack_loop_bounds [OF rest loop]
    have w1: "wrote h h1 ({buffer ..< buffer + length ms * sizeof_ptr}
                \<union> {buffer + ?pt ..< buffer + ?pt + (buflen - ?pt)})"
      and ok: "ok \<longleftrightarrow> string_bytes ms \<le> buflen - ?pt" and i: "ok \<longrightarrow> i = length ms"
      by simp_all
    have sub1: "{buffer ..< buffer + length ms * sizeof_ptr}
                \<union> {buffer + ?pt ..< buffer + ?pt + (buflen - ?pt)} \<subseteq> {buffer ..< buffer + buflen}"
      using False by auto
    show ?thesis
    proof (cases ok)
      case True
      with run sized False loop i
      have res: "res = NSS_STATUS_SUCCESS" "errnop' = errnop"
        and h': "h' = store_ptr h1 (buffer + length ms * sizeof_ptr) 0"
        by (simp_all add: pack_members_unfold)
      have w2: "wrote h1 h' {buffer + length ms * sizeof_ptr ..< buffer + length ms * sizeof_ptr + sizeof_ptr}"
        unfolding h' by (rule wrote_store_ptr)
      have "wrote h h' (({buffer ..< buffer + length ms * sizeof_ptr}
                \<union> {buffer + ?pt ..< buffer + ?pt + (buflen - ?pt)})
             \<union> {buffer + length ms * sizeof_ptr ..< buffer + length ms * sizeof_ptr + sizeof_ptr})"
        by (rule wrote_trans [OF w1 w2])
      then have "wrote h h' {buffer ..< buffer + buflen}"
        by (rule wrote_mono) (use False in auto)
      with res True ok False show ?thesis by auto
    next
      case no: False
      with run sized False loop
      have "res = NSS_STATUS_TRYAGAIN" "errnop' = Some ERANGE" "h' = h1"
        by (simp_all add: pack_members_unfold)
      moreover have "wrote h h1 {buffer ..< buffer + buflen}"
        using w1 sub1 by (rule wrote_mono)
      ultimately show ?thesis using no ok False by auto
    qed
  qed
  from all show "wrote h h' {buffer ..< buffer + buflen}" by blast
  from all show "buflen < ?pt \<Longrightarrow> res = NSS_STATUS_TRYAGAIN \<and> errnop' = Some ERANGE \<and> h' = h"
    by blast
  from all show "res = NSS_STATUS_SUCCESS \<longleftrightarrow> ?pt + string_bytes ms \<le> buflen" by blast
  from all show "res \<noteq> NSS_STATUS_SUCCESS \<Longrightarrow> res = NSS_STATUS_TRYAGAIN \<and> errnop' = Some ERANGE"
    by blast
qed

lemma string_bytes_take_nth:
  "j < length ms \<Longrightarrow> string_bytes (take j ms) + (strlen (ms ! j) + 1) \<le> string_bytes ms"
proof (induction ms arbitrary: j)
  case Nil
  then show ?case by simp
next
  case (Cons m ms)
  then show ?case
    by (cases j) (auto simp: string_bytes_Cons string_bytes_Nil)
qed

lemma pack_members_roundtrip:
  assumes sized: "int_sized ms"
    and fit: "(length ms + 1) * sizeof_ptr + string_bytes ms \<le> buflen"
  shows "\<exists>h1 h'. pack_members ms h buffer buflen errnop = (NSS_STATUS_SUCCESS, h', errnop) \<and>
           h' = store_ptr h1 (buffer + length ms * sizeof_ptr) 0 \<and>
           holds_ptr h' (buffer + length ms * sizeof_ptr) 0 \<and>
           (\<forall>j < length ms.
              holds_ptr h' (buffer + j * sizeof_ptr)
                (buffer + (length ms + 1) * sizeof_ptr + string_bytes (take j ms)) \<and>
              holds_str h' (buffer + (length ms + 1) * sizeof_ptr + string_bytes (take j ms))
                (c_str (ms ! j)))"
proof -
  let ?pt = "(length ms + 1) * sizeof_ptr"
  let ?nm = "buffer + ?pt"
  let ?slot = "buffer + length ms * sizeof_ptr"
  from sized have rest: "\<forall>m\<in>set ms. strlen m + 1 < 2 ^ 31"
    by (simp add: int_sized_def)
  from fit have big: "\<not> buflen < ?pt" by simp
  obtain ok i h1 where loop: "pack_loop ms 0 buffer ?nm (buflen - ?pt) h = (ok, i, h1)"
    by (cases "pack_loop ms 0 buffer ?nm (buflen - ?pt) h") auto
  from pack_loop_bounds [OF rest loop] fit
  have ok: ok and i: "i = length ms"
    and w1: "wrote h h1 ({buffer + 0 * sizeof_ptr ..< buffer + (0 + length ms) * sizeof_ptr}
                \<union> {?nm ..< ?nm + (buflen - ?pt)})"
    by auto
  let ?h' = "store_ptr h1 ?slot 0"
  from loop ok i big sized
  have run: "pack_members ms h buffer buflen errnop = (NSS_STATUS_SUCCESS, ?h', errnop)"
    by (simp add: pack_members_unfold)
  have w2: "wrote h1 ?h' {?slot ..< ?slot + sizeof_ptr}" by (rule wrote_store_ptr)
  have last_slot: "holds_ptr ?h' ?slot 0" by (rule holds_ptr_store_ptr)
  have each: "holds_ptr ?h' (buffer + j * sizeof_ptr) (?nm + string_bytes (take j ms)) \<and>
              holds_str ?h' (?nm + string_bytes (take j ms)) (c_str (ms ! j))"
    if j: "j < length ms" for j
  proof -
    have geo: "buffer + (0 + length ms) * sizeof_ptr \<le> ?nm" by simp
    from loop ok have loop': "pack_loop ms 0 buffer ?nm (buflen - ?pt) h = (True, i, h1)" by simp
    from pack_loop_content [OF rest geo loop' j]
    have p1: "holds_ptr h1 (buffer + j * sizeof_ptr) (?nm + string_bytes (take j ms))"
      and s1: "holds_str h1 (?nm + string_bytes (take j ms)) (c_str (ms ! j))"
      by simp_all
    have "holds_ptr ?h' (buffer + j * sizeof_ptr) (?nm + string_bytes (take j ms))"
    proof (rule holds_ptr_frame [OF w2 _ p1])
      from j have "j * sizeof_ptr + sizeof_ptr \<le> length ms * sizeof_ptr"
        by (metis Suc_leI mult_Suc mult_le_mono1 add.commute)
      then show "{?slot ..< ?slot + sizeof_ptr}
          \<inter> {buffer + j * sizeof_ptr ..< buffer + j * sizeof_ptr + sizeof_ptr} = {}"
        by auto
    qed
    moreover have "holds_str ?h' (?nm + string_bytes (take j ms)) (c_str (ms ! j))"
    proof (rule holds_str_frame [OF w2 _ s1])
      show "{?slot ..< ?slot + sizeof_ptr} \<inter> {?nm + string_bytes (take j ms) ..<
              ?nm + string_bytes (take j ms) + length (c_str (ms ! j)) + 1} = {}"
        by auto
    qed
    ultimately show ?thesis by blast
  qed
  from run last_slot each show ?thesis by blast
qed

declare gather.simps [simp del]

lemma c_str_idem: "c_str (c_str s) = c_str s"
  by (simp add: c_str_def)

lemma strlen_strdup: "strlen (strdup m) = strlen m"
  by (simp add: strlen_def strdup_def c_str_idem)

lemma int_sized_strdup: "int_sized (map strdup ms) = int_sized ms"
  by (simp add: int_sized_def strlen_strdup)

lemma string_bytes_strdup: "string_bytes (map strdup ms) = string_bytes ms"
  by (simp add: string_bytes_def strlen_strdup comp_def)

lemma gather_result:
  "current pSt = Some r \<Longrightarrow>
     fst (gather pSt acc msize) = acc @ map strdup (r # pending pSt) \<and>
     sid (snd (snd (gather pSt acc msize))) = sid pSt"
proof (induction pSt acc msize arbitrary: r rule: gather.induct)
  case (1 pSt members msize)
  show ?case
  proof (cases "pending pSt")
    case Nil
    with "1.prems" show ?thesis
      by (subst (1 2) gather.simps) (simp add: sqlite3_step_def Let_def)
  next
    case (Cons r' rs)
    let ?pSt' = "pSt\<lparr>current := Some r', pending := rs\<rparr>"
    let ?msize' = "if msize = length members then msize * 2 else msize"
    have step: "sqlite3_step pSt = (SQLITE_ROW, ?pSt')"
      by (simp add: sqlite3_step_def Cons)
    have unf: "gather pSt members msize = gather ?pSt' (members @ [strdup r]) ?msize'"
      by (subst gather.simps) (simp add: step "1.prems" Let_def)
    have "fst (gather ?pSt' (members @ [strdup r]) ?msize') =
            (members @ [strdup r]) @ map strdup (r' # pending ?pSt') \<and>
          sid (snd (snd (gather ?pSt' (members @ [strdup r]) ?msize'))) = sid ?pSt'"
      by (rule "1.IH" [where r = r']) (simp_all add: step "1.prems")
    with unf Cons show ?thesis by simp
  qed
qed

lemma get_users_rows:
  assumes "query_ok w ''get_users''" "prepare_ok w ''get_users''" "bind_ok w ''get_users'' 1"
    and "rows_get_users w gid = r # rs"
  shows "get_users w pDb gid h buffer buflen errnop =
     (case pack_members (map strdup (r # rs)) h buffer buflen errnop of
        (res, h', errnop') \<Rightarrow> (res, h', errnop', after_stmt w pDb))"
proof -
  let ?pSt = "\<lparr>sid = fresh w, current = None, pending = r # rs, fails = step_fail w ''get_users''\<rparr>"
  let ?pSt1 = "?pSt\<lparr>current := Some r, pending := rs\<rparr>"
  obtain members msize pSt2 where g: "gather ?pSt1 [] 20 = (members, msize, pSt2)"
    by (cases "gather ?pSt1 [] 20") auto
  from gather_result [of ?pSt1 r "[]" 20] g
  have m: "members = map strdup (r # rs)" and s: "sid pSt2 = fresh w"
    by simp_all
  show ?thesis
    using assms g m s
    by (simp add: get_users_def get_query_def sqlite3_prepare_def sqlite3_step_def
        sqlite3_finalize_def after_stmt_def split: prod.splits)
qed

lemma get_users_no_rows:
  assumes "no_fault w ''get_users''" and "rows_get_users w gid = []"
  shows "get_users w pDb gid h buffer buflen errnop =
     (if buflen < sizeof_ptr then (NSS_STATUS_TRYAGAIN, h, Some ERANGE, after_stmt w pDb)
      else (NSS_STATUS_SUCCESS, store_ptr h buffer 0, errnop, after_stmt w pDb))"
  using assms
  by (simp add: get_users_def get_query_def sqlite3_prepare_def sqlite3_step_def
        sqlite3_finalize_def after_stmt_def no_fault_def)

lemma get_users_fault:
  assumes "\<not> (query_ok w ''get_users'' \<and> prepare_ok w ''get_users'' \<and> bind_ok w ''get_users'' 1)"
  shows "fst (get_users w pDb gid h buffer buflen errnop) = NSS_STATUS_UNAVAIL"
    and "fst (snd (get_users w pDb gid h buffer buflen errnop)) = h"
  using assms
  by (auto simp: get_users_def get_query_def sqlite3_prepare_def)

lemma get_users_step_fault:
  assumes "query_ok w ''get_users''" "prepare_ok w ''get_users''" "bind_ok w ''get_users'' 1"
    and "step_fail w ''get_users''" and "rows_get_users w gid = []"
  shows "get_users w pDb gid h buffer buflen errnop = (NSS_STATUS_UNAVAIL, h, errnop, after_stmt w pDb)"
  using assms
  by (simp add: get_users_def get_query_def sqlite3_prepare_def sqlite3_step_def
        sqlite3_finalize_def after_stmt_def)

lemma get_users_wrote:
  assumes sized: "int_sized (rows_get_users w gid)"
    and run: "get_users w pDb gid h buffer buflen errnop = (res, h', errnop', w')"
  shows "wrote h h' {buffer ..< buffer + buflen}"
proof (cases "query_ok w ''get_users'' \<and> prepare_ok w ''get_users'' \<and> bind_ok w ''get_users'' 1")
  case False
  from get_users_fault(2) [OF False, of pDb gid h buffer buflen errnop] run
  show ?thesis by (simp add: wrote_refl)
next
  case ok: True
  show ?thesis
  proof (cases "rows_get_users w gid")
    case Nil
    show ?thesis
    proof (cases "step_fail w ''get_users''")
      case True
      with ok Nil run show ?thesis
        by (simp add: get_users_step_fault wrote_refl)
    next
      case False
      with ok have nf: "no_fault w ''get_users''" by (simp add: no_fault_def)
      show ?thesis
      proof (cases "buflen < sizeof_ptr")
        case True
        with run show ?thesis
          by (simp add: get_users_no_rows [OF nf Nil] wrote_refl)
      next
        case False
        with run have "h' = store_ptr h buffer 0"
          by (simp add: get_users_no_rows [OF nf Nil])
        then have "wrote h h' {buffer ..< buffer + sizeof_ptr}"
          by (simp add: wrote_store_ptr)
        then show ?thesis
          by (rule wrote_mono) (use False in auto)
      qed
    qed
  next
    case (Cons r rs)
    from ok have q: "query_ok w ''get_users''" "prepare_ok w ''get_users''" "bind_ok w ''get_users'' 1"
      by simp_all
    obtain e1 where "pack_members (map strdup (r # rs)) h buffer buflen errnop = (res, h', e1)"
      using run unfolding get_users_rows [OF q Cons]
      by (auto split: prod.splits)
    moreover have "int_sized (map strdup (r # rs))"
      using sized Cons by (simp only: int_sized_strdup)
    ultimately show ?thesis
      by (rule pack_members_bounds(1) [rotated])
  qed
qed

text \<open>
  Claim C7.  When the membership query of \<open>get_users\<close> yields no row and the store does
  not fail, the call is a success that stores the single terminating NULL slot at the start
  of the buffer, which reads back as the empty member list; except that with a buffer
  shorter than one pointer it fails with \<open>NSS_STATUS_TRYAGAIN\<close> and \<open>ERANGE\<close>, storing
  nothing.
\<close>

theorem get_users_zero_rows:
  assumes "no_fault w ''get_users''" and "rows_get_users w gid = []"
  shows "\<exists>w'. get_users w pDb gid h buffer buflen errnop =
           (if buflen < sizeof_ptr then (NSS_STATUS_TRYAGAIN, h, Some ERANGE, w')
            else (NSS_STATUS_SUCCESS, store_ptr h buffer 0, errnop, w')) \<and>
         load_members (store_ptr h buffer 0) buffer buflen 1 = Some []"
proof -
  have "load_ptr (store_ptr h buffer 0) buffer = Some 0"
    by (rule load_ptr_holds [OF holds_ptr_store_ptr])
  then have "load_members (store_ptr h buffer 0) buffer buflen 1 = Some []"
    by simp
  with get_users_no_rows [OF assms] show ?thesis by blast
qed

theorem get_users_zero_rows_witness:
  "no_fault example_store ''get_users'' \<and> rows_get_users example_store 300 = [] \<and>
   (\<exists>w'. get_users example_store 1 300 [] 1000 8 None =
            (NSS_STATUS_SUCCESS, store_ptr [] 1000 0, None, w')) \<and>
   (\<exists>w'. get_users example_store 1 300 [] 1000 7 None =
            (NSS_STATUS_TRYAGAIN, [], Some ERANGE, w'))"
proof -
  have nf: "no_fault example_store ''get_users''"
    by (simp add: no_fault_def example_store_def)
  have rows: "rows_get_users example_store 300 = []"
    by (simp add: example_store_def)
  from get_users_zero_rows [OF nf rows, of 1 "[]" 1000 8 None]
       get_users_zero_rows [OF nf rows, of 1 "[]" 1000 7 None] nf rows
  show ?thesis by (simp add: sizeof_ptr_def)
qed

text \<open>
  Within the range of the C \<^verbatim>\<open>int\<close> variables (\<open>int_sized\<close>: the pointer table and
  every name with its terminator take less than \<open>2 ^ 31\<close> bytes): whatever \<open>get_users\<close>
  returns, every byte it stores lies inside the buffer, at an address from \<open>buffer\<close> up to
  but excluding \<open>buffer + buflen\<close>.  When the store does not fail: if \<open>buflen\<close> is less
  than the pointer table size, (member count + 1) times the pointer width, the call fails
  with \<open>NSS_STATUS_TRYAGAIN\<close> and \<open>ERANGE\<close> and stores nothing; and if the buffer is too
  short for the table and the names with their terminators, it fails with the same status.
\<close>

theorem get_users_capacity_checked:
  assumes sized: "int_sized (rows_get_users w gid)"
    and run: "get_users w pDb gid h buffer buflen errnop = (res, h', errnop', w')"
  shows "\<exists>new. h' = new @ h \<and>
           (\<forall>a \<in> fst ` set new. buffer \<le> a \<and> a < buffer + buflen) \<and>
           (no_fault w ''get_users'' \<longrightarrow>
              (buflen < (length (rows_get_users w gid) + 1) * sizeof_ptr \<longrightarrow>
                 res = NSS_STATUS_TRYAGAIN \<and> errnop' = Some ERANGE \<and> new = []) \<and>
              (buflen < (length (rows_get_users w gid) + 1) * sizeof_ptr
                          + string_bytes (rows_get_users w gid) \<longrightarrow>
                 res = NSS_STATUS_TRYAGAIN \<and> errnop' = Some ERANGE))"
proof -
  let ?ms = "rows_get_users w gid"
  from get_users_wrote [OF sized run]
  obtain new where new: "h' = new @ h" and inb: "fst ` set new \<subseteq> {buffer ..< buffer + buflen}"
    by (auto simp: wrote_def)
  have fail: "(buflen < (length ?ms + 1) * sizeof_ptr \<longrightarrow>
                 res = NSS_STATUS_TRYAGAIN \<and> errnop' = Some ERANGE \<and> new = []) \<and>
              (buflen < (length ?ms + 1) * sizeof_ptr + string_bytes ?ms \<longrightarrow>
                 res = NSS_STATUS_TRYAGAIN \<and> errnop' = Some ERANGE)"
    if nf: "no_fault w ''get_users''"
  proof (cases ?ms)
    case Nil
    with run new show ?thesis
      by (auto simp: get_users_no_rows [OF nf Nil] string_bytes_Nil split: if_splits)
  next
    case (Cons r rs)
    from nf have q: "query_ok w ''get_users''" "prepare_ok w ''get_users''" "bind_ok w ''get_users'' 1"
      by (simp_all add: no_fault_def)
    let ?ms' = "map strdup (r # rs)"
    obtain e1 where pm: "pack_members ?ms' h buffer buflen errnop = (res, h', e1)" and e1: "errnop' = e1"
      using run unfolding get_users_rows [OF q Cons]
      by (auto split: prod.splits)
    have sized': "int_sized ?ms'"
      using sized Cons by (simp only: int_sized_strdup)
    have len: "length ?ms' = length ?ms" and sb: "string_bytes ?ms' = string_bytes ?ms"
      using Cons by (simp_all only: string_bytes_strdup length_map)
    from pack_members_bounds(2) [OF sized' pm] new e1
    have a: "buflen < (length ?ms + 1) * sizeof_ptr \<longrightarrow>
                 res = NSS_STATUS_TRYAGAIN \<and> errnop' = Some ERANGE \<and> new = []"
      unfolding len by simp
    from pack_members_bounds(3,4) [OF sized' pm] e1
    have b: "buflen < (length ?ms + 1) * sizeof_ptr + string_bytes ?ms \<longrightarrow>
                 res = NSS_STATUS_TRYAGAIN \<and> errnop' = Some ERANGE"
      unfolding len sb by auto
    from a b show ?thesis by blast
  qed
  from new inb fail show ?thesis by auto
qed

theorem get_users_capacity_checked_witness:
  "int_sized (rows_get_users example_store 100) \<and> no_fault example_store ''get_users'' \<and>
   (\<exists>new w'. get_users example_store 1 100 [] 1000 33 None =
                (NSS_STATUS_TRYAGAIN, new @ [], Some ERANGE, w') \<and>
              (\<forall>a \<in> fst ` set new. 1000 \<le> a \<and> a < 1000 + 33))"
proof -
  have s: "int_sized (rows_get_users example_store 100)"
    by (simp add: int_sized_def example_store_def sizeof_ptr_def strlen_def c_str_def NUL_def)
  have nf: "no_fault example_store ''get_users''"
    by (simp add: no_fault_def example_store_def)
  have short: "33 < (length (rows_get_users example_store 100) + 1) * sizeof_ptr
                  + string_bytes (rows_get_users example_store 100)"
    by (simp add: example_store_def sizeof_ptr_def string_bytes_def strlen_def c_str_def NUL_def)
  obtain res h' e' w' where run: "get_users example_store 1 100 [] 1000 33 None = (res, h', e', w')"
    by (cases "get_users example_store 1 100 [] 1000 33 None") auto
  from get_users_capacity_checked [OF s run] nf short run s show ?thesis
    by auto
qed

text \<open>
  Within the same range: when the store does not fail and the buffer has room for the
  pointer table and for the names with their terminators, \<open>get_users\<close> succeeds, and the
  buffer reads back as the member list in the original order: slot \<open>j\<close> of the pointer
  table points to a NUL-terminated copy of name \<open>j\<close> that lies after the pointer table
  and inside the buffer, the slot after the last name holds NULL, and that slot is the last
  store made.
\<close>

theorem get_users_round_trip:
  assumes nf: "no_fault w ''get_users''"
    and sized: "int_sized (rows_get_users w gid)"
    and fit: "(length (rows_get_users w gid) + 1) * sizeof_ptr + string_bytes (rows_get_users w gid)
                \<le> buflen"
  shows "\<exists>h' h1 w'.
           get_users w pDb gid h buffer buflen errnop = (NSS_STATUS_SUCCESS, h', errnop, w') \<and>
           load_members h' buffer buflen (Suc (length (rows_get_users w gid)))
             = Some (map c_str (rows_get_users w gid)) \<and>
           (\<forall>j < length (rows_get_users w gid). \<exists>p.
              load_ptr h' (buffer + j * sizeof_ptr) = Some p \<and>
              buffer + (length (rows_get_users w gid) + 1) * sizeof_ptr \<le> p \<and>
              p + strlen (rows_get_users w gid ! j) + 1 \<le> buffer + buflen \<and>
              load_cstr h' p buflen = Some (c_str (rows_get_users w gid ! j))) \<and>
           load_ptr h' (buffer + length (rows_get_users w gid) * sizeof_ptr) = Some 0 \<and>
           h' = store_ptr h1 (buffer + length (rows_get_users w gid) * sizeof_ptr) 0"
proof -
  let ?ms = "rows_get_users w gid"
  let ?n = "length ?ms"
  let ?ms' = "map strdup ?ms"
  let ?nm = "buffer + (?n + 1) * sizeof_ptr"
  have sized': "int_sized ?ms'" using sized by (simp only: int_sized_strdup)
  have fit': "(length ?ms' + 1) * sizeof_ptr + string_bytes ?ms' \<le> buflen"
    using fit by (simp only: string_bytes_strdup length_map)
  from pack_members_roundtrip [OF sized' fit', of h buffer errnop]
  obtain h1 h' where pm: "pack_members ?ms' h buffer buflen errnop = (NSS_STATUS_SUCCESS, h', errnop)"
    and h': "h' = store_ptr h1 (buffer + ?n * sizeof_ptr) 0"
    and last_slot: "holds_ptr h' (buffer + ?n * sizeof_ptr) 0"
    and each: "\<And>j. j < ?n \<Longrightarrow>
        holds_ptr h' (buffer + j * sizeof_ptr) (?nm + string_bytes (take j ?ms')) \<and>
        holds_str h' (?nm + string_bytes (take j ?ms')) (c_str (?ms' ! j))"
    by (auto simp only: length_map)
  have cs: "c_str (?ms' ! j) = c_str (?ms ! j)" if "j < ?n" for j
    using that by (simp add: strdup_def c_str_idem)
  have run: "\<exists>w'. get_users w pDb gid h buffer buflen errnop = (NSS_STATUS_SUCCESS, h', errnop, w')"
  proof (cases ?ms)
    case Nil
    with fit have "\<not> buflen < sizeof_ptr" by simp
    moreover from Nil pm sized' fit have "h' = store_ptr h buffer 0"
      by (simp add: pack_members_unfold)
    ultimately show ?thesis
      by (simp add: get_users_no_rows [OF nf Nil])
  next
    case (Cons r rs)
    from nf have q: "query_ok w ''get_users''" "prepare_ok w ''get_users''" "bind_ok w ''get_users'' 1"
      by (simp_all add: no_fault_def)
    from pm show ?thesis
      unfolding get_users_rows [OF q Cons] Cons by simp
  qed
  have len_j: "string_bytes (take j ?ms') + (strlen (?ms ! j) + 1) \<le> string_bytes ?ms" if "j < ?n" for j
    using string_bytes_take_nth [of j ?ms'] that
    by (simp add: string_bytes_strdup strlen_strdup)
  have ptrs: "\<exists>p. load_ptr h' (buffer + j * sizeof_ptr) = Some p \<and> ?nm \<le> p \<and>
              p + strlen (?ms ! j) + 1 \<le> buffer + buflen \<and>
              load_cstr h' p buflen = Some (c_str (?ms ! j))" if j: "j < ?n" for j
  proof -
    let ?p = "?nm + string_bytes (take j ?ms')"
    from each [OF j] cs [OF j]
    have hp: "holds_ptr h' (buffer + j * sizeof_ptr) ?p" and hs: "holds_str h' ?p (c_str (?ms ! j))"
      by simp_all
    have "length (c_str (?ms ! j)) < buflen"
      using len_j [OF j] fit by (simp add: strlen_def)
    with hs have "load_cstr h' ?p buflen = Some (c_str (?ms ! j))"
      by (rule load_cstr_holds)
    moreover have "?p + strlen (?ms ! j) + 1 \<le> buffer + buflen"
      using len_j [OF j] fit by simp
    ultimately show ?thesis
      using load_ptr_holds [OF hp] by auto
  qed
  have dec: "load_members h' buffer buflen (Suc ?n) = Some (map c_str ?ms)"
  proof -
    have "load_members h' buffer buflen (Suc (length (map c_str ?ms))) = Some (map c_str ?ms)"
    proof (rule load_members_holds [where p = "\<lambda>j. ?nm + string_bytes (take j ?ms')"])
      show "\<forall>j < length (map c_str ?ms).
          holds_ptr h' (buffer + j * sizeof_ptr) (?nm + string_bytes (take j ?ms')) \<and>
          ?nm + string_bytes (take j ?ms') \<noteq> 0 \<and>
          holds_str h' (?nm + string_bytes (take j ?ms')) (map c_str ?ms ! j) \<and>
          length (map c_str ?ms ! j) < buflen"
      proof (intro allI impI)
        fix j assume "j < length (map c_str ?ms)"
        then have j: "j < ?n" by simp
        have "0 < sizeof_ptr" by (simp add: sizeof_ptr_def)
        then have "?nm + string_bytes (take j ?ms') \<noteq> 0" by simp
        moreover have "length (c_str (?ms ! j)) < buflen"
          using len_j [OF j] fit by (simp add: strlen_def)
        ultimately show "holds_ptr h' (buffer + j * sizeof_ptr) (?nm + string_bytes (take j ?ms')) \<and>
          ?nm + string_bytes (take j ?ms') \<noteq> 0 \<and>
          holds_str h' (?nm + string_bytes (take j ?ms')) (map c_str ?ms ! j) \<and>
          length (map c_str ?ms ! j) < buflen"
          using each [OF j] cs [OF j] j by simp
      qed
      show "holds_ptr h' (buffer + length (map c_str ?ms) * sizeof_ptr) 0"
        using last_slot by simp
    qed
    then show ?thesis by simp
  qed
  from run obtain w' where "get_users w pDb gid h buffer buflen errnop = (NSS_STATUS_SUCCESS, h', errnop, w')"
    by blast
  with dec ptrs load_ptr_holds [OF last_slot] h' show ?thesis
    by blast
qed

theorem get_users_round_trip_witness:
  "no_fault example_store ''get_users'' \<and> int_sized (rows_get_users example_store 100) \<and>
   (\<exists>h' w'. get_users example_store 1 100 [] 1000 34 None = (NSS_STATUS_SUCCESS, h', None, w') \<and>
      load_members h' 1000 34 3 = Some [''alice'', ''bob''])"
proof -
  have s: "int_sized (rows_get_users example_store 100)"
    by (simp add: int_sized_def example_store_def sizeof_ptr_def strlen_def c_str_def NUL_def)
  have nf: "no_fault example_store ''get_users''"
    by (simp add: no_fault_def example_store_def)
  have rows: "rows_get_users example_store 100 = [''alice'', ''bob'']"
    by (simp add: example_store_def)
  have fit: "(length (rows_get_users example_store 100) + 1) * sizeof_ptr
                  + string_bytes (rows_get_users example_store 100) \<le> 34"
    by (simp add: example_store_def sizeof_ptr_def string_bytes_def strlen_def c_str_def NUL_def)
  have cs: "map c_str [''alice'', ''bob''] = [''alice'', ''bob'']"
    by (simp add: c_str_def NUL_def)
  from get_users_round_trip [OF nf s fit, of 1 "[]" 1000 None]
  obtain h' w' where run: "get_users example_store 1 100 [] 1000 34 None = (NSS_STATUS_SUCCESS, h', None, w')"
    and dec: "load_members h' 1000 34 (Suc (length (rows_get_users example_store 100)))
                = Some (map c_str (rows_get_users example_store 100))"
    by blast
  have "Suc (length (rows_get_users example_store 100)) = 3"
    unfolding rows by simp
  with dec have "load_members h' 1000 34 3 = Some [''alice'', ''bob'']"
    unfolding rows cs by (simp only:)
  with run nf s show ?thesis by blast
qed


subsection \<open>Beyond the range of \<^verbatim>\<open>int\<close>\<close>

text \<open>
  \<^verbatim>\<open>ptr_area_size\<close> is an \<^verbatim>\<open>int\<close> (line 407), and line 480 converts the size of the
  pointer table to it.  With \<open>2 ^ 29\<close> members the table takes \<open>2 ^ 32\<close> bytes and the
  variable holds 0; with \<open>2 ^ 28\<close> it takes \<open>2 ^ 31\<close> bytes and the variable is negative,
  which the comparison of line 482 reads as a size just below \<open>2 ^ 64\<close>.
\<close>

lemma c_int_2p32: "c_int (2 ^ 32) = 0"
  by (simp add: c_int_def)

lemma c_int_2p31: "c_int (2 ^ 31) = - (2 ^ 31)"
  by (simp add: c_int_def)

lemma size_t_of_neg_2p31: "size_t_of (- (2 ^ 31)) = 2 ^ 64 - 2 ^ 31"
  by (simp add: size_t_of_def)

lemma c_int_1: "c_int (Suc 0) = 1" and size_t_of_0: "size_t_of 0 = 0" and size_t_of_1: "size_t_of 1 = 1"
  by (simp_all add: c_int_def size_t_of_def)

lemma strlen_Nil: "strlen [] = 0"
  by (simp add: strlen_def c_str_def)

lemma pack_members_table_size_wraps:
  assumes len: "length rest = 2 ^ 29 - 3"
  shows "pack_members ([] # [] # rest) h buffer 1 errnop =
           (NSS_STATUS_TRYAGAIN, store_ptr (strcpy h buffer []) buffer buffer, Some ERANGE)"
proof -
  have "(length ([] # [] # rest) + 1) * sizeof_ptr = 2 ^ 32"
    by (simp add: len sizeof_ptr_def)
  then have pt: "c_int ((length ([] # [] # rest) + 1) * sizeof_ptr) = 0"
    by (simp only: c_int_2p32)
  have loop: "pack_loop ([] # [] # rest) 0 buffer buffer (Suc 0) h =
          (False, Suc 0, store_ptr (strcpy h buffer []) buffer buffer)"
    by (simp add: strlen_Nil c_int_1 size_t_of_1 Let_def)
  show ?thesis
    unfolding pack_members_def Let_def pt size_t_of_0
    by (simp add: loop del: pack_loop.simps)
qed

lemma pack_members_table_size_negative:
  assumes len: "length ms = 2 ^ 28 - 1" and b: "buflen < 2 ^ 64 - 2 ^ 31"
  shows "pack_members ms h buffer buflen errnop = (NSS_STATUS_TRYAGAIN, h, Some ERANGE)"
proof -
  have "(length ms + 1) * sizeof_ptr = 2 ^ 31"
    by (simp add: len sizeof_ptr_def)
  then have pt: "c_int ((length ms + 1) * sizeof_ptr) = - (2 ^ 31)"
    by (simp only: c_int_2p31)
  show ?thesis
    unfolding pack_members_def Let_def pt size_t_of_neg_2p31
    using b by simp
qed

lemma string_bytes_replicate_Nil: "string_bytes (replicate n []) = n"
  by (induction n) (simp_all add: string_bytes_def strlen_Nil)

text \<open>
  Claim C3 at a failing input: a group of \<open>2 ^ 29\<close> - 1 members with empty names and a
  buffer of one byte at address 1000.  The test of the pointer table size passes, the first
  name is packed, and the pointer to it is stored in the eight bytes from 1000: the byte at
  1007 is stored outside the buffer.  The call then fails on the second name.
\<close>

theorem get_users_stores_past_buffer:
  "fst (get_users store_2p29_members 1 100 [] 1000 1 None) = NSS_STATUS_TRYAGAIN \<and>
   (1007, PtrFrag 1000 7) \<in> set (fst (snd (get_users store_2p29_members 1 100 [] 1000 1 None)))"
proof -
  let ?rest = "replicate (2 ^ 29 - 3) ([] :: string)"
  have n: "(2 :: nat) ^ 29 - 1 = Suc (Suc (2 ^ 29 - 3))" by simp
  have rows0: "rows_get_users store_2p29_members 100 = replicate (2 ^ 29 - 1) []"
    unfolding store_2p29_members_def by simp
  have e: "replicate ((2 :: nat) ^ 29 - 1) ([] :: string) = [] # [] # ?rest"
    by (subst n) (simp only: replicate.simps)
  have rows: "rows_get_users store_2p29_members 100 = [] # [] # ?rest"
    by (rule trans [OF rows0 e])
  have q: "query_ok store_2p29_members ''get_users''"
    and p: "prepare_ok store_2p29_members ''get_users''"
    and b: "bind_ok store_2p29_members ''get_users'' 1"
    by (simp_all add: store_2p29_members_def example_store_def)
  have sd: "map strdup ([] # [] # ?rest) = [] # [] # map strdup ?rest"
    by (simp add: strdup_def c_str_def)
  have len: "length (map strdup ?rest) = 2 ^ 29 - 3"
    by (simp only: length_map length_replicate)
  have "get_users store_2p29_members 1 100 [] 1000 1 None =
          (NSS_STATUS_TRYAGAIN, store_ptr (strcpy [] 1000 []) 1000 1000, Some ERANGE,
           after_stmt store_2p29_members 1)"
    unfolding get_users_rows [OF q p b rows] sd pack_members_table_size_wraps [OF len]
    by simp
  moreover have "(1007, PtrFrag 1000 7) \<in> set (store_ptr (strcpy [] 1000 []) 1000 1000)"
    by code_simp
  ultimately show ?thesis by simp
qed

text \<open>
  Claim C4 at a failing input: a group of \<open>2 ^ 28\<close> - 1 members with empty names and a
  buffer of exactly the size of the pointer table and the names with their terminators.
  The call fails with \<open>NSS_STATUS_TRYAGAIN\<close>.
\<close>

theorem get_users_rejects_sufficient_buffer:
  "(length (rows_get_users store_2p28_members 100) + 1) * sizeof_ptr
      + string_bytes (rows_get_users store_2p28_members 100) = 2 ^ 31 + 2 ^ 28 - 1 \<and>
   fst (get_users store_2p28_members 1 100 [] 1000 (2 ^ 31 + 2 ^ 28 - 1) None) = NSS_STATUS_TRYAGAIN"
proof -
  let ?rest = "replicate (2 ^ 28 - 2) ([] :: string)"
  have n: "(2 :: nat) ^ 28 - 1 = Suc (2 ^ 28 - 2)" by simp
  have rows0: "rows_get_users store_2p28_members 100 = replicate (2 ^ 28 - 1) []"
    unfolding store_2p28_members_def by simp
  have e: "replicate ((2 :: nat) ^ 28 - 1) ([] :: string) = [] # ?rest"
    by (subst n) (simp only: replicate.simps)
  have rows: "rows_get_users store_2p28_members 100 = [] # ?rest"
    by (rule trans [OF rows0 e])
  have q: "query_ok store_2p28_members ''get_users''"
    and p: "prepare_ok store_2p28_members ''get_users''"
    and b: "bind_ok store_2p28_members ''get_users'' 1"
    by (simp_all add: store_2p28_members_def example_store_def)
  have size: "(length (rows_get_users store_2p28_members 100) + 1) * sizeof_ptr
      + string_bytes (rows_get_users store_2p28_members 100) = 2 ^ 31 + 2 ^ 28 - 1"
    unfolding rows0 string_bytes_replicate_Nil length_replicate
    by (simp add: sizeof_ptr_def)
  have len: "length (map strdup ([] # ?rest)) = 2 ^ 28 - 1"
    by (simp only: length_map list.size length_replicate) simp
  have bl: "(2 :: nat) ^ 31 + 2 ^ 28 - 1 < 2 ^ 64 - 2 ^ 31" by simp
  have "get_users store_2p28_members 1 100 [] 1000 (2 ^ 31 + 2 ^ 28 - 1) None =
          (NSS_STATUS_TRYAGAIN, [], Some ERANGE, after_stmt store_2p28_members 1)"
    unfolding get_users_rows [OF q p b rows] pack_members_table_size_negative [OF len bl]
    by simp
  with size show ?thesis by simp
qed


section \<open>Properties of the growing vector\<close>

declare collect.simps [simp del]

lemma length_realloc: "length (realloc cells n) = nat n"
  by (simp add: realloc_def)

lemma take_realloc: "k \<le> length cells \<Longrightarrow> int k \<le> n \<Longrightarrow> take k (realloc cells n) = take k cells"
proof -
  assume a: "k \<le> length cells" and b: "int k \<le> n"
  from b have "k \<le> nat n" by linarith
  with a show ?thesis by (simp add: realloc_def min_absorb2)
qed

lemma grow_None:
  "vec_ok limit v \<Longrightarrow> grow limit v = None \<longleftrightarrow> gv_start v = gv_size v \<and> 0 < limit \<and> gv_size v = limit"
  by (auto simp: grow_def vec_ok_def Let_def)

lemma grow_Some:
  assumes ok: "vec_ok limit v" and g: "grow limit v = Some v1"
  shows "vec_ok limit v1" and "gv_start v1 = gv_start v" and "gv_start v1 < gv_size v1"
    and "take (nat (gv_start v)) (gv_groupsp v1) = take (nat (gv_start v)) (gv_groupsp v)"
    and "gv_size v1 = (if gv_start v \<noteq> gv_size v then gv_size v
                       else if limit \<le> 0 then gv_size v * 2 else min limit (gv_size v * 2))"
proof -
  have all: "vec_ok limit v1 \<and> gv_start v1 = gv_start v \<and> gv_start v1 < gv_size v1 \<and>
     take (nat (gv_start v)) (gv_groupsp v1) = take (nat (gv_start v)) (gv_groupsp v) \<and>
     gv_size v1 = (if gv_start v \<noteq> gv_size v then gv_size v
                       else if limit \<le> 0 then gv_size v * 2 else min limit (gv_size v * 2))"
  proof (cases "gv_start v = gv_size v")
    case False
    with g have "v1 = v" by (simp add: grow_def)
    with ok False show ?thesis by (simp add: vec_ok_def)
  next
    case full: True
    let ?n = "if 0 < limit then (if limit < gv_size v * 2 then limit else gv_size v * 2) else gv_size v * 2"
    from g full ok have lim: "0 < limit \<longrightarrow> gv_size v < limit"
      by (auto simp: grow_def vec_ok_def split: if_splits)
    from g full lim have v1: "v1 = v\<lparr>gv_size := ?n, gv_groupsp := realloc (gv_groupsp v) ?n\<rparr>"
      by (auto simp: grow_def Let_def split: if_splits)
    from ok lim have n: "gv_size v < ?n" by (auto simp: vec_ok_def)
    have "take (nat (gv_start v)) (realloc (gv_groupsp v) ?n) = take (nat (gv_start v)) (gv_groupsp v)"
      using ok n full by (intro take_realloc) (auto simp: vec_ok_def)
    with ok n full lim show ?thesis
      unfolding v1 by (auto simp: vec_ok_def length_realloc min_def)
  qed
  from all show "vec_ok limit v1" "gv_start v1 = gv_start v" "gv_start v1 < gv_size v1"
    "take (nat (gv_start v)) (gv_groupsp v1) = take (nat (gv_start v)) (gv_groupsp v)"
    "gv_size v1 = (if gv_start v \<noteq> gv_size v then gv_size v
                       else if limit \<le> 0 then gv_size v * 2 else min limit (gv_size v * 2))"
    by blast+
qed

lemma store_gid_append:
  assumes ok: "vec_ok limit v1" and lt: "gv_start v1 < gv_size v1"
    and v2_def: "v2 = (store_gid v1 g)\<lparr>gv_start := gv_start (store_gid v1 g) + 1\<rparr>"
  shows "vec_ok limit v2" and "gv_start v2 = gv_start v1 + 1" and "gv_size v2 = gv_size v1"
    and "take (nat (gv_start v2)) (gv_groupsp v2) = take (nat (gv_start v1)) (gv_groupsp v1) @ [Some g]"
proof -
  let ?k = "nat (gv_start v1)"
  from ok lt have k: "?k < length (gv_groupsp v1)" and s0: "0 \<le> gv_start v1"
    by (auto simp: vec_ok_def)
  then have sg: "store_gid v1 g = v1\<lparr>gv_groupsp := (gv_groupsp v1)[?k := Some g]\<rparr>"
    using ok lt by (simp add: store_gid_def vec_ok_def)
  have v2: "v2 = v1\<lparr>gv_groupsp := (gv_groupsp v1)[?k := Some g], gv_start := gv_start v1 + 1\<rparr>"
    unfolding v2_def sg by simp
  show "vec_ok limit v2" using ok lt unfolding v2 by (simp add: vec_ok_def)
  show "gv_start v2 = gv_start v1 + 1" unfolding v2 by simp
  show "gv_size v2 = gv_size v1" unfolding v2 by simp
  have "nat (gv_start v1 + 1) = Suc ?k" using s0 by simp
  then show "take (nat (gv_start v2)) (gv_groupsp v2) = take ?k (gv_groupsp v1) @ [Some g]"
    unfolding v2 using k by (simp add: take_Suc_conv_app_nth)
qed

lemma collect_unfold:
  assumes "current pSt = Some r"
  shows "collect pSt limit v =
     (case grow limit v of
        None \<Rightarrow> (False, v, pSt)
      | Some v1 \<Rightarrow>
          (case pending pSt of
             [] \<Rightarrow> (True, (store_gid v1 r)\<lparr>gv_start := gv_start (store_gid v1 r) + 1\<rparr>,
                    pSt\<lparr>current := None\<rparr>)
           | r' # rs \<Rightarrow> collect (pSt\<lparr>current := Some r', pending := rs\<rparr>) limit
                         ((store_gid v1 r)\<lparr>gv_start := gv_start (store_gid v1 r) + 1\<rparr>)))"
  by (subst collect.simps)
     (simp add: assms sqlite3_step_def Let_def split: option.splits list.splits)

lemma collect_spec:
  assumes "vec_ok limit v" and "current pSt = Some r" and "pending pSt = rs"
    and "collect pSt limit v = (done, v', pSt')"
  shows "vec_ok limit v' \<and> sid pSt' = sid pSt \<and>
     (done \<longleftrightarrow> limit \<le> 0 \<or> gv_start v + int (length (r # rs)) \<le> limit) \<and>
     (done \<longrightarrow> gv_start v' = gv_start v + int (length (r # rs)) \<and>
        take (nat (gv_start v')) (gv_groupsp v') =
          take (nat (gv_start v)) (gv_groupsp v) @ map Some (r # rs)) \<and>
     (\<not> done \<longrightarrow> gv_start v' = limit \<and> gv_size v' = limit \<and>
        take (nat (gv_start v')) (gv_groupsp v') =
          take (nat (gv_start v)) (gv_groupsp v) @ map Some (take (nat (limit - gv_start v)) (r # rs)))"
  using assms
proof (induction rs arbitrary: pSt v r)
  case Nil
  show ?case
  proof (cases "grow limit v")
    case None
    with Nil.prems have res: "done = False" "v' = v" "pSt' = pSt"
      by (simp_all add: collect_unfold)
    from None Nil.prems(1) have "gv_start v = gv_size v" "0 < limit" "gv_size v = limit"
      by (simp_all add: grow_None)
    with res Nil.prems(1) show ?thesis by simp
  next
    case (Some v1)
    let ?v2 = "(store_gid v1 r)\<lparr>gv_start := gv_start (store_gid v1 r) + 1\<rparr>"
    from Some Nil.prems have res: "done = True" "v' = ?v2" "pSt' = pSt\<lparr>current := None\<rparr>"
      by (simp_all add: collect_unfold)
    note g = grow_Some [OF Nil.prems(1) Some]
    note a = store_gid_append [OF g(1) g(3) refl, of r]
    from g(1) g(3) have "0 < limit \<longrightarrow> gv_start v1 + 1 \<le> limit"
      by (auto simp: vec_ok_def)
    with res a g(2,4) show ?thesis by auto
  qed
next
  case (Cons r' rs)
  show ?case
  proof (cases "grow limit v")
    case None
    with Cons.prems have res: "done = False" "v' = v" "pSt' = pSt"
      by (simp_all add: collect_unfold)
    from None Cons.prems(1) have "gv_start v = gv_size v" "0 < limit" "gv_size v = limit"
      by (simp_all add: grow_None)
    with res Cons.prems(1) show ?thesis by simp
  next
    case (Some v1)
    let ?v2 = "(store_gid v1 r)\<lparr>gv_start := gv_start (store_gid v1 r) + 1\<rparr>"
    let ?pSt1 = "pSt\<lparr>current := Some r', pending := rs\<rparr>"
    from Some Cons.prems have run: "collect ?pSt1 limit ?v2 = (done, v', pSt')"
      by (simp add: collect_unfold)
    note g = grow_Some [OF Cons.prems(1) Some]
    note a = store_gid_append [OF g(1) g(3) refl, of r]
    have ih: "vec_ok limit v' \<and> sid pSt' = sid ?pSt1 \<and>
       (done \<longleftrightarrow> limit \<le> 0 \<or> gv_start ?v2 + int (length (r' # rs)) \<le> limit) \<and>
       (done \<longrightarrow> gv_start v' = gv_start ?v2 + int (length (r' # rs)) \<and>
          take (nat (gv_start v')) (gv_groupsp v') =
            take (nat (gv_start ?v2)) (gv_groupsp ?v2) @ map Some (r' # rs)) \<and>
       (\<not> done \<longrightarrow> gv_start v' = limit \<and> gv_size v' = limit \<and>
          take (nat (gv_start v')) (gv_groupsp v') =
            take (nat (gv_start ?v2)) (gv_groupsp ?v2) @ map Some (take (nat (limit - gv_start ?v2)) (r' # rs)))"
      by (rule Cons.IH [OF a(1) _ _ run]) simp_all
    have room: "0 < limit \<longrightarrow> gv_start v + 1 \<le> limit"
      using g(1,2,3) by (auto simp: vec_ok_def)
    have tk: "take (nat (limit - gv_start v)) (r # r' # rs) =
                r # take (nat (limit - (gv_start v + 1))) (r' # rs)" if "0 < limit"
    proof -
      from that room have "nat (limit - gv_start v) = Suc (nat (limit - (gv_start v + 1)))"
        by linarith
      then show ?thesis by simp
    qed
    from ih a(2,4) g(2,4) have "vec_ok limit v'" "sid pSt' = sid pSt"
      and d: "done \<longleftrightarrow> limit \<le> 0 \<or> gv_start v + int (length (r # r' # rs)) \<le> limit"
      and y: "done \<longrightarrow> gv_start v' = gv_start v + int (length (r # r' # rs)) \<and>
          take (nat (gv_start v')) (gv_groupsp v') =
            take (nat (gv_start v)) (gv_groupsp v) @ map Some (r # r' # rs)"
      and n: "\<not> done \<longrightarrow> gv_start v' = limit \<and> gv_size v' = limit \<and>
          take (nat (gv_start v')) (gv_groupsp v') =
            take (nat (gv_start v)) (gv_groupsp v) @
              Some r # map Some (take (nat (limit - (gv_start v + 1))) (r' # rs))"
      by (auto simp: algebra_simps)
    moreover have "\<not> done \<longrightarrow> 0 < limit" using d by auto
    ultimately show ?thesis using tk by auto
  qed
qed

lemma initgroups_rows:
  assumes "initgroups_ready w" and "rows_initgroups w user gid = r # rs"
    and "collect \<lparr>sid = Suc (fresh w), current = Some r, pending = rs,
                   fails = step_fail w ''initgroups_dyn''\<rparr> limit v = (done, v1, pSt1)"
  shows "\<exists>w'. initgroups_dyn w user gid v limit errnop =
           (if done then (NSS_STATUS_SUCCESS, shrink v1, errnop, w')
            else (NSS_STATUS_TRYAGAIN, v1, Some ERANGE, w'))"
  using assms
  by (simp add: initgroups_dyn_def initgroups_ready_def sqlite3_open_def get_query_def
      sqlite3_prepare_def sqlite3_step_def res2nss_status_def shrink_def Let_def)

lemma initgroups_no_rows:
  assumes "initgroups_ready w" and "rows_initgroups w user gid = []"
  shows "\<exists>w'. initgroups_dyn w user gid v limit errnop =
           (if step_fail w ''initgroups_dyn'' then NSS_STATUS_UNAVAIL else NSS_STATUS_NOTFOUND,
            v, errnop, w')"
  using assms
  by (simp add: initgroups_dyn_def initgroups_ready_def sqlite3_open_def get_query_def
      sqlite3_prepare_def sqlite3_step_def res2nss_status_def Let_def)



text \<open>
  Claim C6, as amended.  For a caller's vector that satisfies \<open>vec_ok\<close> (a length between
  0 and the capacity, at least one cell, as many cells as the capacity says, a capacity
  within the limit when there is one) and a store that fails at no step before the first
  row: the entries the vector held and the ids appended by the call are at their indices in
  the result, in the order of the rows; every growth step leaves the entries below the
  length as they were; and when at least one row was fetched and the rows are exhausted
  without reaching the limit, the call succeeds with the capacity equal to the length (and
  the vector reallocated to that many cells).  When the query yields no row at all the call
  returns the not-found status (the unavailable status when that first step fails) and
  leaves the vector, its length and its capacity as they were.
\<close>

theorem initgroups_dyn_prefix_and_fit:
  assumes ready: "initgroups_ready w" and ok: "vec_ok limit v"
    and run: "initgroups_dyn w user gid v limit errnop = (res, v', errnop', w')"
  shows "(\<exists>k \<le> length (rows_initgroups w user gid).
            gv_start v' = gv_start v + int k \<and>
            take (nat (gv_start v')) (gv_groupsp v') =
              take (nat (gv_start v)) (gv_groupsp v) @ map Some (take k (rows_initgroups w user gid))) \<and>
         (\<forall>u u1. vec_ok limit u \<and> grow limit u = Some u1 \<longrightarrow>
            take (nat (gv_start u)) (gv_groupsp u1) = take (nat (gv_start u)) (gv_groupsp u)) \<and>
         (rows_initgroups w user gid \<noteq> [] \<and>
          (limit \<le> 0 \<or> gv_start v + int (length (rows_initgroups w user gid)) \<le> limit) \<longrightarrow>
            res = NSS_STATUS_SUCCESS \<and> gv_size v' = gv_start v' \<and>
            int (length (gv_groupsp v')) = gv_start v' \<and>
            gv_start v' = gv_start v + int (length (rows_initgroups w user gid))) \<and>
         (rows_initgroups w user gid = [] \<longrightarrow>
            res = (if step_fail w ''initgroups_dyn'' then NSS_STATUS_UNAVAIL
                   else NSS_STATUS_NOTFOUND) \<and>
            v' = v)"
proof -
  let ?rows = "rows_initgroups w user gid"
  let ?old = "take (nat (gv_start v)) (gv_groupsp v)"
  have step: "\<forall>u u1. vec_ok limit u \<and> grow limit u = Some u1 \<longrightarrow>
            take (nat (gv_start u)) (gv_groupsp u1) = take (nat (gv_start u)) (gv_groupsp u)"
    using grow_Some(4) by blast
  have main: "(\<exists>k \<le> length ?rows. gv_start v' = gv_start v + int k \<and>
            take (nat (gv_start v')) (gv_groupsp v') = ?old @ map Some (take k ?rows)) \<and>
         (?rows \<noteq> [] \<and> (limit \<le> 0 \<or> gv_start v + int (length ?rows) \<le> limit) \<longrightarrow>
            res = NSS_STATUS_SUCCESS \<and> gv_size v' = gv_start v' \<and>
            int (length (gv_groupsp v')) = gv_start v' \<and>
            gv_start v' = gv_start v + int (length ?rows)) \<and>
         (?rows = [] \<longrightarrow>
            res = (if step_fail w ''initgroups_dyn'' then NSS_STATUS_UNAVAIL
                   else NSS_STATUS_NOTFOUND) \<and>
            v' = v)"
  proof (cases ?rows)
    case Nil
    from initgroups_no_rows [OF ready Nil, of v limit errnop] run
    have "res = (if step_fail w ''initgroups_dyn'' then NSS_STATUS_UNAVAIL
                 else NSS_STATUS_NOTFOUND)" "v' = v"
      by auto
    then show ?thesis unfolding Nil by simp
  next
    case (Cons r rs)
    let ?pSt = "\<lparr>sid = Suc (fresh w), current = Some r, pending = rs,
                   fails = step_fail w ''initgroups_dyn''\<rparr>"
    obtain fin v1 pSt1 where c: "collect ?pSt limit v = (fin, v1, pSt1)"
      by (cases "collect ?pSt limit v") auto
    have cs: "vec_ok limit v1 \<and> sid pSt1 = sid ?pSt \<and>
     (fin \<longleftrightarrow> limit \<le> 0 \<or> gv_start v + int (length (r # rs)) \<le> limit) \<and>
     (fin \<longrightarrow> gv_start v1 = gv_start v + int (length (r # rs)) \<and>
        take (nat (gv_start v1)) (gv_groupsp v1) = ?old @ map Some (r # rs)) \<and>
     (\<not> fin \<longrightarrow> gv_start v1 = limit \<and> gv_size v1 = limit \<and>
        take (nat (gv_start v1)) (gv_groupsp v1) =
          ?old @ map Some (take (nat (limit - gv_start v)) (r # rs)))"
      by (rule collect_spec [OF ok _ _ c]) simp_all
    from cs have ok1: "vec_ok limit v1" by blast
    from cs have d: "fin \<longleftrightarrow> limit \<le> 0 \<or> gv_start v + int (length (r # rs)) \<le> limit" by blast
    show ?thesis
    proof (cases fin)
      case True
      with initgroups_rows [OF ready Cons c, of errnop] run
      have res: "res = NSS_STATUS_SUCCESS" and v': "v' = shrink v1" by auto
      from cs True have s1: "gv_start v1 = gv_start v + int (length (r # rs))"
        and t1: "take (nat (gv_start v1)) (gv_groupsp v1) = ?old @ map Some (r # rs)"
        by blast+
      from ok1 have le: "nat (gv_start v1) \<le> length (gv_groupsp v1)" and nn: "0 \<le> gv_start v1"
        by (auto simp: vec_ok_def)
      have cells: "gv_groupsp v' = take (nat (gv_start v1)) (gv_groupsp v1)"
        using le by (simp add: v' shrink_def realloc_def)
      have st: "gv_start v' = gv_start v1" "gv_size v' = gv_start v1"
        by (simp_all add: v' shrink_def)
      have len: "int (length (gv_groupsp v')) = gv_start v'"
        using le nn by (simp add: cells st)
      have "take (nat (gv_start v')) (gv_groupsp v') = take (nat (gv_start v1)) (gv_groupsp v1)"
        by (simp add: cells st)
      also note t1
      finally have tk: "take (nat (gv_start v')) (gv_groupsp v') = ?old @ map Some (take (length (r # rs)) (r # rs))"
        by simp
      have ex: "\<exists>k \<le> length (r # rs). gv_start v' = gv_start v + int k \<and>
            take (nat (gv_start v')) (gv_groupsp v') = ?old @ map Some (take k (r # rs))"
        using tk st s1 by (intro exI [of _ "length (r # rs)"]) simp
      from ex res st len s1 show ?thesis unfolding Cons by simp
    next
      case False
      with initgroups_rows [OF ready Cons c, of errnop] run
      have v': "v' = v1" by auto
      from cs False have s1: "gv_start v1 = limit"
        and t1: "take (nat (gv_start v1)) (gv_groupsp v1) =
                   ?old @ map Some (take (nat (limit - gv_start v)) (r # rs))"
        by blast+
      from ok have "0 \<le> gv_start v" "0 < limit \<longrightarrow> gv_start v \<le> limit" by (auto simp: vec_ok_def)
      with False d have k: "nat (limit - gv_start v) \<le> length (r # rs)"
        and e: "limit = gv_start v + int (nat (limit - gv_start v))"
        by auto
      have ex: "\<exists>k \<le> length (r # rs). gv_start v' = gv_start v + int k \<and>
            take (nat (gv_start v')) (gv_groupsp v') = ?old @ map Some (take k (r # rs))"
        using k e t1 s1 unfolding v' by (intro exI [of _ "nat (limit - gv_start v)"]) simp
      from ex False d show ?thesis unfolding Cons by simp
    qed
  qed
  show ?thesis
    by (rule conjI [OF conjunct1 [OF main] conjI [OF step conjunct2 [OF main]]])
qed



theorem initgroups_dyn_prefix_and_fit_witness:
  "initgroups_ready example_store \<and> vec_ok 0 example_vec \<and>
   fst (initgroups_dyn example_store ''alice'' 100 example_vec 0 None) = NSS_STATUS_SUCCESS \<and>
   gv_size (fst (snd (initgroups_dyn example_store ''alice'' 100 example_vec 0 None))) = 3 \<and>
   gv_start (fst (snd (initgroups_dyn example_store ''alice'' 100 example_vec 0 None))) = 3"
proof -
  have ready: "initgroups_ready example_store"
    by (simp add: initgroups_ready_def example_store_def)
  have ok: "vec_ok 0 example_vec"
    by (simp add: vec_ok_def example_vec_def)
  have rows: "rows_initgroups example_store ''alice'' 100 = [100, 200, 300]"
    by (simp add: example_store_def)
  obtain res v' e' w' where
    run: "initgroups_dyn example_store ''alice'' 100 example_vec 0 None = (res, v', e', w')"
    by (cases "initgroups_dyn example_store ''alice'' 100 example_vec 0 None") auto
  have s0: "gv_start example_vec = 0" by (simp add: example_vec_def)
  from initgroups_dyn_prefix_and_fit [OF ready ok run]
  have "res = NSS_STATUS_SUCCESS" and "gv_size v' = 3" and "gv_start v' = 3"
    unfolding rows s0 by simp_all
  with run ready ok show ?thesis by simp
qed

text \<open>
  Claim C6 as stated fails when the query has no row: the rows are exhausted at the first
  step, the call returns the not-found status, and the capacity (2) is not the length (0).
\<close>

theorem initgroups_dyn_no_rows_counterexample:
  "fst (initgroups_dyn example_store ''bob'' 100 example_vec 0 None) = NSS_STATUS_NOTFOUND \<and>
   gv_size (fst (snd (initgroups_dyn example_store ''bob'' 100 example_vec 0 None))) = 2 \<and>
   gv_start (fst (snd (initgroups_dyn example_store ''bob'' 100 example_vec 0 None))) = 0"
proof -
  have ready: "initgroups_ready example_store"
    by (simp add: initgroups_ready_def example_store_def)
  have rows: "rows_initgroups example_store ''bob'' 100 = []"
    by (simp add: example_store_def)
  have nf: "\<not> step_fail example_store ''initgroups_dyn''"
    by (simp add: example_store_def)
  from initgroups_no_rows [OF ready rows, of example_vec 0 None] nf
  show ?thesis by (auto simp: example_vec_def)
qed




section \<open>Properties of the enumeration cursor and the point lookups\<close>

text \<open>
  The end of the set.  When the cursor is open on a statement that has no more rows, the
  store does not fail and no other statement is open on the connection, the fetch part of
  \<open>getgrent_r\<close> returns the not-found status, finalizes the statement, closes the
  connection and resets the connection handle.  The pending-retry flag and the cached
  record are left as they are.
\<close>

lemma getgrent_fetch_end_of_set:
  assumes db: "gd_pDb g \<noteq> 0" and st: "gd_pSt g = Some s"
    and last: "pending s = []" and nofail: "\<not> fails s"
    and nb: "\<not> busy (trace w @ [Finalize (sid s)]) (gd_pDb g)"
  shows "getgrent_fetch g w gbuf h buf buflen errnop =
           (NSS_STATUS_NOTFOUND, gbuf, h, errnop,
            g\<lparr>gd_pSt := Some (s\<lparr>current := None\<rparr>), gd_pDb := 0\<rparr>,
            pthread_mutex_unlock (w\<lparr>trace := trace w @ [Finalize (sid s), Close (gd_pDb g)]\<rparr>))"
  using assms
  by (simp add: getgrent_fetch_def sqlite3_step_def res2nss_status_def sqlite3_finalize_def
      sqlite3_close_def Let_def)

text \<open>
  Claim C9 at a failing enumeration.  The scan holds the groups 200 and 100.  The first call
  returns group 200.  The second call, with a buffer of 30 bytes, fails on group 100 with
  \<open>NSS_STATUS_TRYAGAIN\<close>.  The third call, again with 30 bytes, fails to marshal the cached
  group 100 and goes on to step the cursor: no more rows remain, so it returns the not-found
  status and resets the connection handle, with the pending-retry flag still set.  The
  fourth call opens the cursor anew and, before it steps, marshals the cached group 100 and
  returns it: the new enumeration delivers 100, 200, 100.
\<close>

theorem getgrent_r_end_of_set_keeps_pending_retry:
  "enumerate_calls grent_data store_ops_first [64, 30, 30, 64, 64, 64, 64] =
     [(NSS_STATUS_SUCCESS, 200), (NSS_STATUS_TRYAGAIN, 100), (NSS_STATUS_NOTFOUND, 100),
      (NSS_STATUS_SUCCESS, 100), (NSS_STATUS_SUCCESS, 200), (NSS_STATUS_SUCCESS, 100),
      (NSS_STATUS_NOTFOUND, 0)]"
  by code_simp

text \<open>
  Claim C1 at a failing enumeration.  The store holds the groups 100 and 200.  The first
  call, with a buffer of 30 bytes, fails on group 100 with \<open>NSS_STATUS_TRYAGAIN\<close>.  The
  second call, again with 30 bytes, fails to marshal the cached group 100 once more and
  then goes on to step the cursor: it fetches group 200, which fits, and returns it, with
  the pending-retry flag still set.  The third call, with 64 bytes, marshals the cached
  record again and returns group 200 a second time.  Group 100 is never returned.
\<close>

theorem getgrent_r_retry_skips_and_repeats:
  "enumerate_calls grent_data example_store [30, 30, 64, 64] =
     [(NSS_STATUS_TRYAGAIN, 100), (NSS_STATUS_SUCCESS, 200),
      (NSS_STATUS_SUCCESS, 200), (NSS_STATUS_NOTFOUND, 0)]"
  by code_simp

text \<open>A single retry with a sufficient buffer returns the record that failed.\<close>

lemma getgrent_r_single_retry:
  "enumerate_calls grent_data example_store [30, 64, 64, 64] =
     [(NSS_STATUS_TRYAGAIN, 100), (NSS_STATUS_SUCCESS, 100),
      (NSS_STATUS_SUCCESS, 200), (NSS_STATUS_NOTFOUND, 0)]"
  by code_simp



lemma get_users_world:
  "snd (snd (snd (get_users w pDb gid h buffer buflen errnop))) =
     (if \<not> query_ok w ''get_users'' then sqlite3_close pDb w
      else if prepare_ok w ''get_users'' then after_stmt w pDb else w)"
proof (cases "query_ok w ''get_users''")
  case False
  then show ?thesis by (simp add: get_users_def get_query_def)
next
  case q: True
  show ?thesis
  proof (cases "prepare_ok w ''get_users''")
    case False
    with q show ?thesis
      by (simp add: get_users_def get_query_def sqlite3_prepare_def sqlite3_finalize_def)
  next
    case p: True
    show ?thesis
    proof (cases "bind_ok w ''get_users'' 1")
      case False
      with q p show ?thesis
        by (simp add: get_users_def get_query_def sqlite3_prepare_def sqlite3_finalize_def
            after_stmt_def)
    next
      case b: True
      show ?thesis
      proof (cases "rows_get_users w gid")
        case Nil
        show ?thesis
        proof (cases "step_fail w ''get_users''")
          case True
          with q p b Nil show ?thesis by (simp add: get_users_step_fault)
        next
          case False
          with q p b have "no_fault w ''get_users''" by (simp add: no_fault_def)
          from get_users_no_rows [OF this Nil] q p show ?thesis by simp
        qed
      next
        case (Cons r rs)
        from get_users_rows [OF q p b Cons] q p show ?thesis
          by (simp split: prod.splits)
      qed
    qed
  qed
qed

lemma fill_group_world:
  "snd (snd (snd (snd (fill_group w pDb gbuf h buf buflen entry errnop)))) =
     (if buflen < strlen (gr_name entry) + 1 then w
      else if \<not> query_ok w ''get_users'' then sqlite3_close pDb w
      else if prepare_ok w ''get_users'' then after_stmt w pDb else w)"
proof -
  let ?n = "strlen (gr_name entry) + 1"
  let ?gu = "get_users w pDb (gr_gid entry) (strcpy h buf (gr_name entry)) (buf + ?n) (buflen - ?n) errnop"
  have "snd (snd (snd (snd (fill_group w pDb gbuf h buf buflen entry errnop)))) =
          (if buflen < ?n then w else snd (snd (snd ?gu)))"
    by (simp add: fill_group_def Let_def split: prod.splits)
  then show ?thesis by (simp add: get_users_world)
qed









text \<open>
  Claim C8 at a failing input: the store cannot prepare the query of \<open>get_users\<close>.
  Marshaling the group staff fails with the unavailable status, and \<open>getgrent_r\<close>, which
  fetched that row, returns success.
\<close>

theorem getgrent_r_reports_success_on_store_failure:
  "fst (fill_group store_bad_members_query 1 example_gbuf [] 1000 64 staff None) = NSS_STATUS_UNAVAIL \<and>
   fst (getgrent_r grent_data store_bad_members_query example_gbuf [] 1000 64 None) = NSS_STATUS_SUCCESS"
  by code_simp

theorem getgrent_r_reports_success_on_store_failure_witness:
  "fst (getgrent_r grent_data store_bad_members_query example_gbuf [] 1000 64 None) \<noteq>
   fst (fill_group store_bad_members_query 1 example_gbuf [] 1000 64 staff None)"
  using getgrent_r_reports_success_on_store_failure by simp

text \<open>
  The depth of the lock after a call.  \<open>setgrent\<close> gives the lock back only when it
  succeeds; \<open>endgrent\<close> always does, and so does \<open>getgrent_r\<close> on an open cursor
  (on a closed one it calls \<open>setgrent\<close> first).  On a cursor that is already open
  \<open>setgrent\<close> frees a pointer that was never initialised.
\<close>

lemma get_users_mutex: "mutex (snd (snd (snd (get_users w pDb gid h buffer buflen errnop)))) = mutex w"
  by (simp add: get_users_world sqlite3_close_def after_stmt_def)

lemma fill_group_mutexD:
  "fill_group w pDb gbuf h buf buflen entry errnop = (res, gbuf', h', errnop', w') \<Longrightarrow>
     mutex w' = mutex w"
  using fill_group_world [of w pDb gbuf h buf buflen entry errnop]
  by (simp add: sqlite3_close_def after_stmt_def split: if_splits)

lemma setgrent_lock_depth:
  "mutex (snd (snd (setgrent g w))) =
     (if fst (setgrent g w) = NSS_STATUS_SUCCESS then mutex w else Suc (mutex w))"
  by (simp add: setgrent_def sqlite3_open_def get_query_def sqlite3_prepare_def
      sqlite3_finalize_def sqlite3_close_def pthread_mutex_lock_def pthread_mutex_unlock_def
      Let_def split: prod.splits)

lemma endgrent_lock_depth: "mutex (snd (snd (endgrent g w))) = mutex w"
  by (simp add: endgrent_def sqlite3_finalize_def sqlite3_close_def pthread_mutex_lock_def
      pthread_mutex_unlock_def Let_def split: option.splits)

lemma getgrent_fetch_lock_depth:
  "mutex (snd (snd (snd (snd (snd (getgrent_fetch g w gbuf h buf buflen errnop)))))) = mutex w - 1"
  by (auto simp: getgrent_fetch_def sqlite3_step_def res2nss_status_def sqlite3_finalize_def
      sqlite3_close_def pthread_mutex_unlock_def Let_def
      split: prod.splits option.splits list.splits sqlite_rc.splits if_splits
      dest: fill_group_mutexD)

lemma getgrent_r_lock_depth:
  assumes "gd_pDb g \<noteq> 0"
  shows "mutex (snd (snd (snd (snd (snd (getgrent_r g w gbuf h buf buflen errnop)))))) = mutex w"
proof -
  let ?w = "pthread_mutex_lock w"
  have m: "mutex ?w = Suc (mutex w)" by (simp add: pthread_mutex_lock_def)
  show ?thesis
  proof (cases "gd_try_again g")
    case False
    with assms show ?thesis
      by (simp add: getgrent_r_def getgrent_fetch_lock_depth m)
  next
    case True
    obtain res gbuf' h' e' w' where
      f: "fill_group ?w (gd_pDb g) gbuf h buf buflen (gd_entry g) errnop = (res, gbuf', h', e', w')"
      by (cases "fill_group ?w (gd_pDb g) gbuf h buf buflen (gd_entry g) errnop") auto
    from fill_group_mutexD [OF f] m have "mutex w' = Suc (mutex w)" by simp
    with assms True f show ?thesis
      by (simp add: getgrent_r_def getgrent_fetch_lock_depth pthread_mutex_unlock_def)
  qed
qed

lemma setgrent_open_cursor_frees_wild:
  "gd_pDb g \<noteq> 0 \<Longrightarrow> wild_free (snd (snd (setgrent g w)))"
  by (simp add: setgrent_def pthread_mutex_lock_def pthread_mutex_unlock_def)

text \<open>
  Claim C10 at a failing input: the store cannot be opened.  \<open>setgrent\<close> takes the lock,
  returns the unavailable status, and the lock is still held after the return.
\<close>

theorem setgrent_error_keeps_lock:
  "mutex store_unopenable = 0 \<and>
   fst (setgrent grent_data store_unopenable) = NSS_STATUS_UNAVAIL \<and>
   mutex (snd (snd (setgrent grent_data store_unopenable))) = 1"
  by code_simp

end
